theory Spec2Isabelle
  imports Main "HOL-Library.Word"
begin

unbundle bit_operations_syntax

section \<open>The xHCI ring engine of the mu3h test driver (xhci.c)\<close>

text \<open>
  This theory embeds the ring cursor logic, the transfer-descriptor builders and the
  event dispatch paths of \<^verbatim>\<open>drivers/usb/mu3h/mu3h_test_drv/xhci.c\<close>.

  Memory is modelled by an explicit store. A pointer to a TRB (\<^verbatim>\<open>union xhci_trb *\<close>)
  is a natural number: the virtual address counted in units of one TRB (16 bytes, four
  32-bit words), so that the C pointer arithmetic \<^verbatim>\<open>++p\<close> and \<^verbatim>\<open>p - seg->trbs\<close> is \<open>p + 1\<close>
  and \<open>p - trbs seg\<close>. Pointers to segments and rings are handles into
  the stores \<open>segs\<close> and \<open>rings\<close>. The null pointer is \<open>0\<close>.
  DMA addresses (\<^verbatim>\<open>dma_addr_t\<close>, \<^verbatim>\<open>u64\<close>) are 64-bit words, TRB fields are 32-bit words.
\<close>

type_synonym u32 = "32 word"
type_synonym u64 = "64 word"
type_synonym trb_ptr = nat
type_synonym seg_ptr = nat
type_synonym ring_ptr = nat
type_synonym td_ptr = nat
type_synonym urb_ptr = nat

subsection \<open>The constants of xhci.h\<close>

text \<open>
  The header \<^verbatim>\<open>xhci.h\<close> is not part of the sources at hand, nor are the USB core headers.
  Their constants and field-extraction macros are taken as a parameter \<open>h\<close> of every
  function that uses them; no theorem below depends on a particular bit layout unless it
  says so in a hypothesis.
\<close>

record xhci_h =
  TRBS_PER_SEGMENT :: nat
  TRB_TYPE_BITMASK :: u32
  TRB_TYPE :: "u32 \<Rightarrow> u32"         \<comment> \<open>the macro \<^verbatim>\<open>TRB_TYPE(p)\<close>\<close>
  TRB_LINK :: u32
  TRB_CMD_NOOP :: u32
  TRB_ENABLE_SLOT :: u32
  TRB_DISABLE_SLOT :: u32
  TRB_ADDR_DEV :: u32
  TRB_CONFIG_EP :: u32
  TRB_RESET_DEV :: u32
  TRB_STOP_RING :: u32
  TRB_SET_DEQ :: u32
  TRB_EVAL_CONTEXT :: u32
  TRB_RESET_EP :: u32
  LINK_TOGGLE :: u32
  TRB_CHAIN :: u32
  TRB_CYCLE :: u32
  TRB_TO_SLOT_ID :: "u32 \<Rightarrow> nat"
  TRB_TO_EP_ID :: "u32 \<Rightarrow> nat"
  TRB_TO_EP_INDEX :: "u32 \<Rightarrow> u32"     \<comment> \<open>the macro \<^verbatim>\<open>TRB_TO_EP_INDEX(p)\<close>, as stored in an \<^verbatim>\<open>unsigned int\<close>\<close>
  GET_COMP_CODE :: "u32 \<Rightarrow> u32"
  COMP_SUCCESS :: u32
  COMP_CMD_ABORT :: u32
  COMP_CMD_STOP :: u32
  COMP_STOP :: u32
  COMP_STOP_INVAL :: u32
  COMP_STALL :: u32
  COMP_TX_ERR :: u32
  COMP_BABBLE :: u32
  COMP_SPLIT_ERR :: u32
  COMP_UNDERRUN :: u32
  COMP_OVERRUN :: u32
  SET_DEQ_PENDING :: u32
  EP_HALTED :: u32
  EP_HALT_PENDING :: u32
  DB_MASK :: u32
  EPI_TO_DB :: "nat \<Rightarrow> u32"
  STREAM_ID_TO_DB :: "u32 \<Rightarrow> u32"
  ERST_PTR_MASK :: u64
  ERST_EHB :: u64
  URB_SHORT_NOT_OK :: u32
  URB_ZERO_PACKET :: u32
  USB_DIR_IN :: "8 word"
  TRB_NORMAL :: u32
  TRB_SETUP :: u32
  TRB_DATA :: u32
  TRB_STATUS :: u32
  TRB_IDT :: u32
  TRB_IOC :: u32
  TRB_ISP :: u32
  TRB_BEI :: u32
  TRB_DIR_IN :: u32
  TRB_TRT :: "u32 \<Rightarrow> u32"          \<comment> \<open>the macro \<^verbatim>\<open>TRB_TRT(p)\<close>\<close>
  TRT_NO_DATA :: u32
  TRT_IN_DATA :: u32
  TRT_OUT_DATA :: u32
  TRB_LEN :: "u32 \<Rightarrow> u32"          \<comment> \<open>the macro \<^verbatim>\<open>TRB_LEN(p)\<close>\<close>
  TRB_INTR_TARGET :: "u32 \<Rightarrow> u32"  \<comment> \<open>the macro \<^verbatim>\<open>TRB_INTR_TARGET(p)\<close>\<close>

subsection \<open>Segments, rings and the controller state\<close>

record xhci_generic_trb =
  field0 :: u32
  field1 :: u32
  field2 :: u32
  field3 :: u32

text \<open>\<^verbatim>\<open>trb->link.control\<close> is the fourth word of the TRB.\<close>

definition link_control :: "xhci_generic_trb \<Rightarrow> u32" where
  "link_control t = field3 t"

record xhci_segment =
  trbs :: trb_ptr       \<comment> \<open>address of \<^verbatim>\<open>trbs[0]\<close>\<close>
  dma :: u64
  seg_next :: seg_ptr   \<comment> \<open>\<^verbatim>\<open>next\<close>\<close>

record xhci_ring =
  first_seg :: seg_ptr
  enqueue :: trb_ptr
  enq_seg :: seg_ptr
  enq_updates :: u32
  dequeue :: trb_ptr
  deq_seg :: seg_ptr
  deq_updates :: u32
  cycle_state :: u32
  td_list :: "td_ptr list"   \<comment> \<open>the pending TDs, head first\<close>
  ring_stream_id :: u32   \<comment> \<open>\<^verbatim>\<open>stream_id\<close>\<close>

record xhci_td =
  td_urb :: urb_ptr          \<comment> \<open>\<^verbatim>\<open>urb\<close>\<close>
  td_start_seg :: seg_ptr    \<comment> \<open>\<^verbatim>\<open>start_seg\<close>\<close>
  td_first_trb :: trb_ptr    \<comment> \<open>\<^verbatim>\<open>first_trb\<close>\<close>
  td_last_trb :: trb_ptr     \<comment> \<open>\<^verbatim>\<open>last_trb\<close>\<close>

record xhci_virt_ep =
  ep_state :: u32
  stopped_td :: td_ptr
  stopped_trb :: trb_ptr
  stopped_stream :: u32

text \<open>
  The endpoint states of the output endpoint context
  (\<^verbatim>\<open>ep_ctx->ep_info & EP_STATE_MASK\<close>); their numeric codes are in xhci.h.
  \<open>EP_STATE_OTHER\<close> is any value that reaches a \<^verbatim>\<open>default\<close> label.
\<close>

datatype ep_ctx_state =
  EP_STATE_DISABLED | EP_STATE_RUNNING | EP_STATE_HALTED | EP_STATE_STOPPED | EP_STATE_ERROR
  | EP_STATE_OTHER u32

record xhci_virt_device =
  eps :: "nat \<Rightarrow> xhci_virt_ep"
  out_ctx_ep_state :: "nat \<Rightarrow> ep_ctx_state"
    \<comment> \<open>\<^verbatim>\<open>xhci_get_ep_ctx(xhci, out_ctx, ep_index)->ep_info & EP_STATE_MASK\<close>\<close>

text \<open>
  The fields of \<^verbatim>\<open>struct urb\<close> and of its \<^verbatim>\<open>urb_priv\<close> that the completion path reads and
  writes, and the store of the objects that belong to the USB core and not to the
  controller: the URBs and their TDs.
\<close>

datatype usb_speed =
  USB_SPEED_UNKNOWN | USB_SPEED_LOW | USB_SPEED_FULL | USB_SPEED_HIGH | USB_SPEED_WIRELESS
  | USB_SPEED_SUPER

record usb_ctrlrequest =
  bRequestType :: "8 word"
  bRequest :: "8 word"
  wValue :: "16 word"
  wIndex :: "16 word"
  wLength :: "16 word"

record urb =
  transfer_buffer_length :: u32
  actual_length :: u32
  transfer_flags :: u32
  transfer_dma :: u64
  num_sgs :: u32                       \<comment> \<open>an \<^verbatim>\<open>int\<close>\<close>
  sg :: "(u64 \<times> u32) list"         \<comment> \<open>\<^verbatim>\<open>sg_dma_address\<close> and \<^verbatim>\<open>sg_dma_len\<close> of each entry\<close>
  setup_packet :: "usb_ctrlrequest option"   \<comment> \<open>\<open>None\<close> is a null pointer\<close>
  dev_speed :: usb_speed               \<comment> \<open>\<^verbatim>\<open>urb->dev->speed\<close>\<close>
  wMaxPacketSize :: "16 word"          \<comment> \<open>\<^verbatim>\<open>urb->ep->desc.wMaxPacketSize\<close>\<close>
  ep_dir_in :: bool                    \<comment> \<open>\<^verbatim>\<open>usb_endpoint_dir_in(&urb->ep->desc)\<close>\<close>
  td_cnt :: int          \<comment> \<open>\<^verbatim>\<open>urb_priv->td_cnt\<close>\<close>
  priv_length :: int     \<comment> \<open>\<^verbatim>\<open>urb_priv->length\<close>\<close>

record urb_store =
  urbs :: "urb_ptr \<Rightarrow> urb"
  tds :: "td_ptr \<Rightarrow> xhci_td"

text \<open>The values of the global \<^verbatim>\<open>g_cmd_status\<close>.\<close>

datatype cmd_status = CMD_RUNNING | CMD_DONE | CMD_FAIL

text \<open>
  The controller state. Besides the fields of \<^verbatim>\<open>struct xhci_hcd\<close> it holds the TRB memory,
  the objects the driver reaches through pointers, the registers the modelled functions
  touch and the globals they write. A doorbell register is read from \<open>doorbell\<close>; every
  write to one is appended to \<open>doorbell_writes\<close>.
\<close>

record xhci_hcd =
  segs :: "seg_ptr \<Rightarrow> xhci_segment"
  mem :: "trb_ptr \<Rightarrow> xhci_generic_trb"
  rings :: "ring_ptr \<Rightarrow> xhci_ring"
  devs :: "nat \<Rightarrow> xhci_virt_device option"   \<comment> \<open>\<open>None\<close> is a null pointer\<close>
  event_ring :: ring_ptr
  cmd_ring :: ring_ptr
  link_trb_quirk :: bool    \<comment> \<open>\<^verbatim>\<open>xhci_link_trb_quirk(xhci)\<close>\<close>
  error_bitmask :: u32
  doorbell :: "nat \<Rightarrow> u32"
  doorbell_writes :: "(nat \<times> u32) list"
  erst_dequeue :: u64       \<comment> \<open>\<^verbatim>\<open>ir_set->erst_dequeue\<close>\<close>
  g_slot_id :: nat
  g_cmd_status :: cmd_status

subsection \<open>Ring cursor primitives\<close>

definition xhci_trb_virt_to_dma :: "xhci_h \<Rightarrow> xhci_hcd \<Rightarrow> seg_ptr \<Rightarrow> trb_ptr \<Rightarrow> u64" where
  "xhci_trb_virt_to_dma h x seg trb =
     (if seg = 0 \<or> trb = 0 \<or> trb < trbs (segs x seg) then 0
      else let segment_offset = trb - trbs (segs x seg) in
        if segment_offset > TRBS_PER_SEGMENT h then 0
        else dma (segs x seg) + of_nat (segment_offset * 16))"

definition last_trb_on_last_seg :: "xhci_h \<Rightarrow> xhci_hcd \<Rightarrow> ring_ptr \<Rightarrow> seg_ptr \<Rightarrow> trb_ptr \<Rightarrow> bool" where
  "last_trb_on_last_seg h x ring seg trb =
     (if ring = event_ring x
      then trb = trbs (segs x seg) + TRBS_PER_SEGMENT h \<and>
           seg_next (segs x seg) = first_seg (rings x (event_ring x))
      else link_control (mem x trb) AND LINK_TOGGLE h \<noteq> 0)"

definition last_trb :: "xhci_h \<Rightarrow> xhci_hcd \<Rightarrow> ring_ptr \<Rightarrow> seg_ptr \<Rightarrow> trb_ptr \<Rightarrow> bool" where
  "last_trb h x ring seg trb =
     (if ring = event_ring x
      then trb = trbs (segs x seg) + TRBS_PER_SEGMENT h
      else link_control (mem x trb) AND TRB_TYPE_BITMASK h = TRB_TYPE h (TRB_LINK h))"

definition enqueue_is_link_trb :: "xhci_h \<Rightarrow> xhci_hcd \<Rightarrow> ring_ptr \<Rightarrow> bool" where
  "enqueue_is_link_trb h x ring =
     (link_control (mem x (enqueue (rings x ring))) AND TRB_TYPE_BITMASK h = TRB_TYPE h (TRB_LINK h))"

text \<open>\<^verbatim>\<open>ring->cycle_state = (ring->cycle_state ? 0 : 1)\<close>\<close>

definition toggle_cycle :: "u32 \<Rightarrow> u32" where
  "toggle_cycle c = (if c \<noteq> 0 then 0 else 1)"

text \<open>
  The \<^verbatim>\<open>while (last_trb(...))\<close> loop of \<^verbatim>\<open>inc_deq\<close>. The source warns that it never
  ends on a ring full of link TRBs, so the loop is a partial function: \<open>None\<close> is
  "does not return".
\<close>

partial_function (option) inc_deq_loop ::
  "xhci_h \<Rightarrow> bool \<Rightarrow> ring_ptr \<Rightarrow> trb_ptr \<Rightarrow> xhci_hcd \<Rightarrow> xhci_hcd option" where
  "inc_deq_loop h consumer ring nxt x =
     (let r = rings x ring in
      if last_trb h x ring (deq_seg r) nxt then
        let r1 = (if consumer \<and> last_trb_on_last_seg h x ring (deq_seg r) nxt
                  then r\<lparr>cycle_state := toggle_cycle (cycle_state r)\<rparr> else r);
            r2 = r1\<lparr>deq_seg := seg_next (segs x (deq_seg r1))\<rparr>;
            r3 = r2\<lparr>dequeue := trbs (segs x (deq_seg r2))\<rparr>
        in inc_deq_loop h consumer ring (dequeue r3) (x\<lparr>rings := (rings x)(ring := r3)\<rparr>)
      else Some x)"

definition inc_deq :: "xhci_h \<Rightarrow> ring_ptr \<Rightarrow> bool \<Rightarrow> xhci_hcd \<Rightarrow> xhci_hcd option" where
  "inc_deq h ring consumer x =
     (let r = rings x ring;
          nxt = dequeue r + 1;
          r' = r\<lparr>dequeue := nxt, deq_updates := deq_updates r + 1\<rparr>
      in inc_deq_loop h consumer ring nxt (x\<lparr>rings := (rings x)(ring := r')\<rparr>))"

text \<open>
  The loop of \<^verbatim>\<open>inc_enq\<close>. \<open>chain\<close> is the chain bit of the TRB just enqueued. The
  \<^verbatim>\<open>break\<close> of the source is the branch that returns without moving off the link TRB.
\<close>

partial_function (option) inc_enq_loop ::
  "xhci_h \<Rightarrow> bool \<Rightarrow> bool \<Rightarrow> u32 \<Rightarrow> ring_ptr \<Rightarrow> trb_ptr \<Rightarrow> xhci_hcd \<Rightarrow> xhci_hcd option" where
  "inc_enq_loop h consumer more_trbs_coming chain ring nxt x =
     (let r = rings x ring in
      if last_trb h x ring (enq_seg r) nxt then
        if \<not> consumer \<and> ring \<noteq> event_ring x \<and> chain = 0 \<and> \<not> more_trbs_coming then Some x
        else
          let x1 = (if \<not> consumer \<and> ring \<noteq> event_ring x then
                      let t = mem x nxt;
                          t1 = (if \<not> link_trb_quirk x
                                then t\<lparr>field3 := (field3 t AND NOT (TRB_CHAIN h)) OR chain\<rparr>
                                else t);
                          t2 = t1\<lparr>field3 := field3 t1 XOR TRB_CYCLE h\<rparr>
                      in x\<lparr>mem := (mem x)(nxt := t2)\<rparr>
                    else x);
              r1 = (if \<not> consumer \<and> last_trb_on_last_seg h x1 ring (enq_seg r) nxt
                    then r\<lparr>cycle_state := toggle_cycle (cycle_state r)\<rparr> else r);
              r2 = r1\<lparr>enq_seg := seg_next (segs x1 (enq_seg r1))\<rparr>;
              r3 = r2\<lparr>enqueue := trbs (segs x1 (enq_seg r2))\<rparr>
          in inc_enq_loop h consumer more_trbs_coming chain ring (enqueue r3)
               (x1\<lparr>rings := (rings x1)(ring := r3)\<rparr>)
      else Some x)"

definition inc_enq :: "xhci_h \<Rightarrow> ring_ptr \<Rightarrow> bool \<Rightarrow> bool \<Rightarrow> xhci_hcd \<Rightarrow> xhci_hcd option" where
  "inc_enq h ring consumer more_trbs_coming x =
     (let r = rings x ring;
          chain = field3 (mem x (enqueue r)) AND TRB_CHAIN h;
          nxt = enqueue r + 1;
          r' = r\<lparr>enqueue := nxt, enq_updates := enq_updates r + 1\<rparr>
      in inc_enq_loop h consumer more_trbs_coming chain ring nxt (x\<lparr>rings := (rings x)(ring := r')\<rparr>))"

subsection \<open>The room check and \<^verbatim>\<open>prepare_ring\<close>\<close>

text \<open>
  \<^verbatim>\<open>room_on_ring\<close> works on the local copies \<^verbatim>\<open>enq\<close>, \<^verbatim>\<open>enq_seg\<close>, \<^verbatim>\<open>cur_seg\<close>,
  \<^verbatim>\<open>left_on_ring\<close> and \<^verbatim>\<open>i\<close> only; the model therefore returns its \<^verbatim>\<open>int\<close> result and no
  state. Its three loops are partial functions. \<^verbatim>\<open>num_trbs\<close> and \<^verbatim>\<open>left_on_ring\<close> are
  \<^verbatim>\<open>unsigned int\<close>; the counter \<^verbatim>\<open>i\<close> is compared with \<^verbatim>\<open>num_trbs\<close> as unsigned.
\<close>

partial_function (option) room_skip_links ::
  "xhci_h \<Rightarrow> xhci_hcd \<Rightarrow> ring_ptr \<Rightarrow> seg_ptr \<Rightarrow> trb_ptr \<Rightarrow> (seg_ptr \<times> trb_ptr) option" where
  "room_skip_links h x ring enq_seg' enq =
     (if last_trb h x ring enq_seg' enq
      then room_skip_links h x ring (seg_next (segs x enq_seg'))
             (trbs (segs x (seg_next (segs x enq_seg'))))
      else Some (enq_seg', enq))"

partial_function (option) room_count_segs ::
  "xhci_h \<Rightarrow> xhci_hcd \<Rightarrow> seg_ptr \<Rightarrow> seg_ptr \<Rightarrow> u32 \<Rightarrow> u32 option" where
  "room_count_segs h x enq_seg' cur_seg left_on_ring =
     (if cur_seg \<noteq> enq_seg'
      then room_count_segs h x enq_seg' (seg_next (segs x cur_seg))
             (left_on_ring + (of_nat (TRBS_PER_SEGMENT h) - 1))
      else Some left_on_ring)"

partial_function (option) room_walk ::
  "xhci_h \<Rightarrow> xhci_hcd \<Rightarrow> ring_ptr \<Rightarrow> u32 \<Rightarrow> u32 \<Rightarrow> seg_ptr \<Rightarrow> trb_ptr \<Rightarrow> int option" where
  "room_walk h x ring num_trbs i enq_seg' enq =
     (if i \<le> num_trbs then
        if enq = dequeue (rings x ring) then Some 0
        else (case room_skip_links h x ring enq_seg' (enq + 1) of
                None \<Rightarrow> None
              | Some (s, e) \<Rightarrow> room_walk h x ring num_trbs (i + 1) s e)
      else Some 1)"

definition room_on_ring :: "xhci_h \<Rightarrow> xhci_hcd \<Rightarrow> ring_ptr \<Rightarrow> u32 \<Rightarrow> int option" where
  "room_on_ring h x ring num_trbs =
     (case room_skip_links h x ring (enq_seg (rings x ring)) (enqueue (rings x ring)) of
        None \<Rightarrow> None
      | Some (enq_seg', enq) \<Rightarrow>
          if enq = dequeue (rings x ring) then
            (case room_count_segs h x enq_seg' (seg_next (segs x enq_seg'))
                    (of_nat (TRBS_PER_SEGMENT h) - 1) of
               None \<Rightarrow> None
             | Some left_on_ring \<Rightarrow>
                 if num_trbs > left_on_ring - 1 then Some 0 else Some 1)
          else room_walk h x ring num_trbs 0 enq_seg' enq)"

text \<open>The error codes that the modelled functions return negated.\<close>

datatype errno = ENOENT | EINVAL | ENOMEM | ENODEV | ESHUTDOWN | EREMOTEIO | EINPROGRESS

partial_function (option) prepare_ring_loop ::
  "xhci_h \<Rightarrow> ring_ptr \<Rightarrow> trb_ptr \<Rightarrow> xhci_hcd \<Rightarrow> xhci_hcd option" where
  "prepare_ring_loop h ring nxt x =
     (let r = rings x ring in
      if last_trb h x ring (enq_seg r) nxt then
        let t = mem x nxt;
            t1 = (if \<not> link_trb_quirk x
                  then t\<lparr>field3 := field3 t AND NOT (TRB_CHAIN h)\<rparr>
                  else t\<lparr>field3 := field3 t OR TRB_CHAIN h\<rparr>);
            t2 = t1\<lparr>field3 := field3 t1 XOR TRB_CYCLE h\<rparr>;
            x1 = x\<lparr>mem := (mem x)(nxt := t2)\<rparr>;
            r1 = (if last_trb_on_last_seg h x1 ring (enq_seg r) nxt
                  then r\<lparr>cycle_state := toggle_cycle (cycle_state r)\<rparr> else r);
            r2 = r1\<lparr>enq_seg := seg_next (segs x1 (enq_seg r1))\<rparr>;
            r3 = r2\<lparr>enqueue := trbs (segs x1 (enq_seg r2))\<rparr>
        in prepare_ring_loop h ring (enqueue r3) (x1\<lparr>rings := (rings x1)(ring := r3)\<rparr>)
      else Some x)"

text \<open>
  \<^verbatim>\<open>prepare_ring\<close> returns \<open>Inl e\<close> for \<^verbatim>\<open>return -e\<close> (every such return comes before
  the first write, so no state goes with it) and \<open>Inr x'\<close> for \<^verbatim>\<open>return 0\<close> with the
  state it leaves.
\<close>

definition prepare_ring ::
  "xhci_h \<Rightarrow> ring_ptr \<Rightarrow> ep_ctx_state \<Rightarrow> u32 \<Rightarrow> xhci_hcd \<Rightarrow> (errno + xhci_hcd) option" where
  "prepare_ring h ep_ring ep_state' num_trbs x =
     (case ep_state' of
        EP_STATE_DISABLED \<Rightarrow> Some (Inl ENOENT)
      | EP_STATE_ERROR \<Rightarrow> Some (Inl EINVAL)
      | EP_STATE_OTHER v \<Rightarrow> Some (Inl EINVAL)
      | _ \<Rightarrow>
         (case room_on_ring h x ep_ring num_trbs of
            None \<Rightarrow> None
          | Some room \<Rightarrow>
              if room = 0 then Some (Inl ENOMEM)
              else if enqueue_is_link_trb h x ep_ring
              then map_option Inr (prepare_ring_loop h ep_ring (enqueue (rings x ep_ring)) x)
              else Some (Inr x)))"

definition queue_trb ::
  "xhci_h \<Rightarrow> ring_ptr \<Rightarrow> bool \<Rightarrow> bool \<Rightarrow> u32 \<Rightarrow> u32 \<Rightarrow> u32 \<Rightarrow> u32 \<Rightarrow> xhci_hcd \<Rightarrow> xhci_hcd option" where
  "queue_trb h ring consumer more_trbs_coming f1 f2 f3 f4 x =
     inc_enq h ring consumer more_trbs_coming
       (x\<lparr>mem := (mem x)(enqueue (rings x ring) :=
            \<lparr>field0 = f1, field1 = f2, field2 = f3, field3 = f4\<rparr>)\<rparr>)"

subsection \<open>Doorbell and event-ring dequeue register\<close>

text \<open>
  \<^verbatim>\<open>ep = &xhci->devs[slot_id]->eps[ep_index]\<close> dereferences the device pointer; on a null
  pointer the kernel does not return, which the model renders as \<open>None\<close>.
\<close>

definition ring_ep_doorbell :: "xhci_h \<Rightarrow> nat \<Rightarrow> nat \<Rightarrow> u32 \<Rightarrow> xhci_hcd \<Rightarrow> xhci_hcd option" where
  "ring_ep_doorbell h slot_id ep_index stream_id x =
     (case devs x slot_id of
        None \<Rightarrow> None
      | Some dev \<Rightarrow>
          let ep_state' = ep_state (eps dev ep_index) in
          if ep_state' AND EP_HALT_PENDING h = 0 \<and> ep_state' AND SET_DEQ_PENDING h = 0
             \<and> ep_state' AND EP_HALTED h = 0
          then
            let field = doorbell x slot_id AND DB_MASK h;
                field' = field OR EPI_TO_DB h ep_index OR STREAM_ID_TO_DB h stream_id
            in Some (x\<lparr>doorbell_writes := doorbell_writes x @ [(slot_id, field')]\<rparr>)
          else Some x)"

definition giveback_first_trb ::
  "xhci_h \<Rightarrow> nat \<Rightarrow> nat \<Rightarrow> u32 \<Rightarrow> u32 \<Rightarrow> trb_ptr \<Rightarrow> xhci_hcd \<Rightarrow> xhci_hcd option" where
  "giveback_first_trb h slot_id ep_index stream_id start_cycle start_trb x =
     (let t = mem x start_trb;
          t' = (if start_cycle \<noteq> 0 then t\<lparr>field3 := field3 t OR start_cycle\<rparr>
                else t\<lparr>field3 := field3 t AND NOT 1\<rparr>)
      in ring_ep_doorbell h slot_id ep_index stream_id (x\<lparr>mem := (mem x)(start_trb := t')\<rparr>))"


subsection \<open>Command completion events\<close>

text \<open>
  A command completion event is a TRB read as \<^verbatim>\<open>struct xhci_event_cmd\<close>: the 64-bit
  \<^verbatim>\<open>cmd_trb\<close> in the first two words, \<^verbatim>\<open>status\<close> in the third, \<^verbatim>\<open>flags\<close> in the fourth.
\<close>

definition event_cmd_trb :: "xhci_generic_trb \<Rightarrow> u64" where
  "event_cmd_trb ev = ucast (field0 ev) OR push_bit 32 (ucast (field1 ev))"

definition event_status :: "xhci_generic_trb \<Rightarrow> u32" where
  "event_status ev = field2 ev"

definition event_flags :: "xhci_generic_trb \<Rightarrow> u32" where
  "event_flags ev = field3 ev"

text \<open>
  \<^verbatim>\<open>xhci->devs[slot_id]->eps[ep_index].ep_state &= ~flag\<close> with the \<^verbatim>\<open>unsigned int ep_index\<close>
  of \<^verbatim>\<open>handle_cmd_completion\<close>. The array \<^verbatim>\<open>eps[]\<close> has 31 entries (the loops of xhci.c over
  it run \<^verbatim>\<open>j < 31\<close>). The result is \<open>None\<close> on a null device and on an index outside the
  array, which is what endpoint ID 0 gives: \<^verbatim>\<open>TRB_TO_EP_INDEX\<close> subtracts 1 from the ID and
  the index wraps around to \<^verbatim>\<open>0xFFFFFFFF\<close>.
\<close>

definition clear_ep_flag :: "nat \<Rightarrow> u32 \<Rightarrow> u32 \<Rightarrow> xhci_hcd \<Rightarrow> xhci_hcd option" where
  "clear_ep_flag slot_id ep_index flag x =
     (case devs x slot_id of
        None \<Rightarrow> None
      | Some dev \<Rightarrow>
          if 31 \<le> unat ep_index then None
          else
            let ep = eps dev (unat ep_index);
                dev' = dev\<lparr>eps := (eps dev)(unat ep_index := ep\<lparr>ep_state := ep_state ep AND NOT flag\<rparr>)\<rparr>
            in Some (x\<lparr>devs := (devs x)(slot_id := Some dev')\<rparr>))"

text \<open>
  The \<^verbatim>\<open>switch\<close> of \<^verbatim>\<open>handle_cmd_completion\<close> on the type of the command TRB under the
  command ring's dequeue pointer. The result is the state after the selected case and
  whether the case ended in \<^verbatim>\<open>return\<close> (\<open>True\<close>) or in \<^verbatim>\<open>break\<close> (\<open>False\<close>).
\<close>

definition cmd_completion_switch ::
  "xhci_h \<Rightarrow> xhci_generic_trb \<Rightarrow> xhci_hcd \<Rightarrow> (bool \<times> xhci_hcd) option" where
  "cmd_completion_switch h event x =
     (let slot_id = TRB_TO_SLOT_ID h (event_flags event);
          trb = dequeue (rings x (cmd_ring x));
          ty = field3 (mem x trb) AND TRB_TYPE_BITMASK h;
          code = GET_COMP_CODE h (event_status event);
          done_or_fail = (\<lambda>ok. Some (False, x\<lparr>g_cmd_status := (if ok then CMD_DONE else CMD_FAIL)\<rparr>))
      in
      if ty = TRB_TYPE h (TRB_CMD_NOOP h) then Some (False, x)
      else if ty = TRB_TYPE h (TRB_ENABLE_SLOT h) then
        (if code = COMP_SUCCESS h
         then Some (False, x\<lparr>g_slot_id := slot_id, g_cmd_status := CMD_DONE\<rparr>)
         else Some (False, x\<lparr>g_slot_id := 0, g_cmd_status := CMD_FAIL\<rparr>))
      else if ty = TRB_TYPE h (TRB_DISABLE_SLOT h) then
        (if code = COMP_SUCCESS h
         then Some (False, x\<lparr>g_slot_id := slot_id, g_cmd_status := CMD_DONE\<rparr>)
         else Some (False, x))
      else if ty = TRB_TYPE h (TRB_ADDR_DEV h) then
        done_or_fail (code = COMP_SUCCESS h \<or> code = COMP_CMD_ABORT h)
      else if ty = TRB_TYPE h (TRB_CONFIG_EP h) then done_or_fail (code = COMP_SUCCESS h)
      else if ty = TRB_TYPE h (TRB_RESET_DEV h) then done_or_fail (code = COMP_SUCCESS h)
      else if ty = TRB_TYPE h (TRB_STOP_RING h) then done_or_fail (code = COMP_SUCCESS h)
      else if ty = TRB_TYPE h (TRB_SET_DEQ h) then
        (if code = COMP_SUCCESS h
         then map_option (\<lambda>y. (False, y\<lparr>g_cmd_status := CMD_DONE\<rparr>))
                (clear_ep_flag slot_id (TRB_TO_EP_INDEX h (field3 (mem x trb))) (SET_DEQ_PENDING h) x)
         else Some (False, x\<lparr>g_cmd_status := CMD_FAIL\<rparr>))
      else if ty = TRB_TYPE h (TRB_EVAL_CONTEXT h) then done_or_fail (code = COMP_SUCCESS h)
      else if ty = TRB_TYPE h (TRB_RESET_EP h) then
        map_option (\<lambda>y. (False, y\<lparr>g_cmd_status := CMD_DONE\<rparr>))
          (clear_ep_flag slot_id (TRB_TO_EP_INDEX h (field3 (mem x trb))) (EP_HALTED h) x)
      else if code = COMP_CMD_STOP h then Some (True, x\<lparr>g_cmd_status := CMD_DONE\<rparr>)
      else Some (False, x\<lparr>error_bitmask := error_bitmask x OR push_bit 6 1, g_cmd_status := CMD_FAIL\<rparr>))"

definition handle_cmd_completion :: "xhci_h \<Rightarrow> xhci_generic_trb \<Rightarrow> xhci_hcd \<Rightarrow> xhci_hcd option" where
  "handle_cmd_completion h event x =
     (let cmd_dma = event_cmd_trb event;
          cmd_dequeue_dma = xhci_trb_virt_to_dma h x (deq_seg (rings x (cmd_ring x)))
                              (dequeue (rings x (cmd_ring x)))
      in
      if cmd_dequeue_dma = 0 then Some (x\<lparr>error_bitmask := error_bitmask x OR push_bit 4 1\<rparr>)
      else if cmd_dma \<noteq> cmd_dequeue_dma
      then Some (x\<lparr>error_bitmask := error_bitmask x OR push_bit 5 1\<rparr>)
      else
        (case cmd_completion_switch h event x of
           None \<Rightarrow> None
         | Some (returned, x1) \<Rightarrow>
             if returned then Some x1 else inc_deq h (cmd_ring x1) False x1))"

subsection \<open>Transfer events: \<^verbatim>\<open>trb_in_td\<close>, \<^verbatim>\<open>finish_td\<close> and \<^verbatim>\<open>handle_tx_event\<close>\<close>

text \<open>
  A transfer event is a TRB read as \<^verbatim>\<open>struct xhci_transfer_event\<close>: the 64-bit \<^verbatim>\<open>buffer\<close>
  in the first two words, \<^verbatim>\<open>transfer_len\<close> in the third, \<^verbatim>\<open>flags\<close> in the fourth.
\<close>

definition event_buffer :: "xhci_generic_trb \<Rightarrow> u64" where
  "event_buffer ev = ucast (field0 ev) OR push_bit 32 (ucast (field1 ev))"

definition event_transfer_len :: "xhci_generic_trb \<Rightarrow> u32" where
  "event_transfer_len ev = field2 ev"



definition xhci_requires_manual_halt_cleanup :: "xhci_h \<Rightarrow> ep_ctx_state \<Rightarrow> u32 \<Rightarrow> bool" where
  "xhci_requires_manual_halt_cleanup h ep_ctx_st trb_comp_code =
     ((trb_comp_code = COMP_TX_ERR h \<or> trb_comp_code = COMP_BABBLE h \<or>
       trb_comp_code = COMP_SPLIT_ERR h) \<and> ep_ctx_st = EP_STATE_HALTED)"

text \<open>
  A pointer to an endpoint (\<^verbatim>\<open>struct xhci_virt_ep *\<close>) is the pair of its slot and its
  index; writing through it updates the device of the slot.
\<close>

definition upd_ep :: "nat \<times> nat \<Rightarrow> (xhci_virt_ep \<Rightarrow> xhci_virt_ep) \<Rightarrow> xhci_hcd \<Rightarrow> xhci_hcd option" where
  "upd_ep ep f x =
     (case devs x (fst ep) of
        None \<Rightarrow> None
      | Some dev \<Rightarrow>
          Some (x\<lparr>devs := (devs x)(fst ep := Some (dev\<lparr>eps := (eps dev)(snd ep := f (eps dev (snd ep)))\<rparr>))\<rparr>))"

text \<open>\<^verbatim>\<open>while (ep_ring->dequeue != td->last_trb) inc_deq(xhci, ep_ring, false);\<close>\<close>

partial_function (option) finish_td_deq_loop ::
  "xhci_h \<Rightarrow> ring_ptr \<Rightarrow> trb_ptr \<Rightarrow> xhci_hcd \<Rightarrow> xhci_hcd option" where
  "finish_td_deq_loop h ep_ring lst x =
     (if dequeue (rings x ep_ring) \<noteq> lst
      then (case inc_deq h ep_ring False x of
              None \<Rightarrow> None
            | Some x' \<Rightarrow> finish_td_deq_loop h ep_ring lst x')
      else Some x)"

text \<open>
  The code of \<^verbatim>\<open>finish_td\<close> from the label \<^verbatim>\<open>td_cleanup\<close> on. \<^verbatim>\<open>list_del(&td->td_list)\<close>
  takes the TD off the list it is on. The status is \<open>None\<close> for 0 and \<open>Some e\<close> for
  \<^verbatim>\<open>-e\<close>. The list of cancelled TDs is not modelled.
\<close>

definition td_cleanup ::
  "xhci_h \<Rightarrow> td_ptr \<Rightarrow> errno option \<Rightarrow> xhci_hcd \<Rightarrow> urb_store
     \<Rightarrow> int \<times> errno option \<times> xhci_hcd \<times> urb_store" where
  "td_cleanup h td status x us =
     (let up = td_urb (tds us td);
          u = urbs us up;
          wrong = (actual_length u > transfer_buffer_length u);
          u1 = (if wrong then u\<lparr>actual_length := 0\<rparr> else u);
          status1 = (if wrong
                     then (if transfer_flags u AND URB_SHORT_NOT_OK h \<noteq> 0 then Some EREMOTEIO else None)
                     else status);
          x1 = x\<lparr>rings := (\<lambda>r. (rings x r)\<lparr>td_list := removeAll td (td_list (rings x r))\<rparr>)\<rparr>;
          u2 = u1\<lparr>td_cnt := td_cnt u1 + 1\<rparr>;
          ret = (if td_cnt u2 = priv_length u2 then 1 else 0)
      in (ret, status1, x1, us\<lparr>urbs := (urbs us)(up := u2)\<rparr>))"

text \<open>
  \<^verbatim>\<open>finish_td\<close>. Two callees are parameters: \<open>dma_to_ring\<close> is
  \<^verbatim>\<open>xhci_dma_to_transfer_ring\<close>, which is not in xhci.c, and \<open>halt_cleanup\<close> is
  \<^verbatim>\<open>xhci_cleanup_halted_endpoint\<close>, which queues commands on the command ring; it reads
  the TD but works on the controller state only, as its type says. An endpoint ID of 0
  in the event would index \<^verbatim>\<open>eps[-1]\<close>; the model gives no result for it.
\<close>

definition finish_td ::
  "xhci_h \<Rightarrow> (xhci_virt_ep \<Rightarrow> u64 \<Rightarrow> ring_ptr)
     \<Rightarrow> (nat \<Rightarrow> nat \<Rightarrow> u32 \<Rightarrow> td_ptr \<Rightarrow> trb_ptr \<Rightarrow> urb_store \<Rightarrow> xhci_hcd \<Rightarrow> xhci_hcd option)
     \<Rightarrow> td_ptr \<Rightarrow> trb_ptr \<Rightarrow> xhci_generic_trb \<Rightarrow> nat \<times> nat \<Rightarrow> errno option \<Rightarrow> bool
     \<Rightarrow> xhci_hcd \<Rightarrow> urb_store \<Rightarrow> (int \<times> errno option \<times> xhci_hcd \<times> urb_store) option" where
  "finish_td h dma_to_ring halt_cleanup td event_trb event ep status skip x us =
     (let slot_id = TRB_TO_SLOT_ID h (event_flags event) in
      case devs x slot_id of
        None \<Rightarrow> None
      | Some xdev \<Rightarrow>
         (case devs x (fst ep) of
            None \<Rightarrow> None
          | Some epdev \<Rightarrow>
              if TRB_TO_EP_ID h (event_flags event) = 0 then None
              else
                let ep_index = TRB_TO_EP_ID h (event_flags event) - 1;
                    ep_ring = dma_to_ring (eps epdev (snd ep)) (event_buffer event);
                    ep_ctx_st = out_ctx_ep_state xdev ep_index;
                    trb_comp_code = GET_COMP_CODE h (event_transfer_len event)
                in
                if skip then Some (td_cleanup h td status x us)
                else if trb_comp_code = COMP_STOP_INVAL h \<or> trb_comp_code = COMP_STOP h then
                  map_option (\<lambda>x'. (0, status, x', us))
                    (upd_ep ep (\<lambda>e. e\<lparr>stopped_td := td, stopped_trb := event_trb\<rparr>) x)
                else if trb_comp_code = COMP_STALL h then
                  (if ep_ring = 0 then None
                   else map_option (\<lambda>x'. td_cleanup h td status x' us)
                     (upd_ep ep (\<lambda>e. e\<lparr>stopped_td := td, stopped_trb := event_trb,
                                          stopped_stream := ring_stream_id (rings x ep_ring)\<rparr>) x))
                else if xhci_requires_manual_halt_cleanup h ep_ctx_st trb_comp_code then
                  (if ep_ring = 0 then None
                   else map_option (\<lambda>x'. td_cleanup h td status x' us)
                     (halt_cleanup slot_id ep_index (ring_stream_id (rings x ep_ring)) td event_trb us x))
                else
                  (if ep_ring = 0 then None
                   else
                     (case finish_td_deq_loop h ep_ring (td_last_trb (tds us td)) x of
                        None \<Rightarrow> None
                      | Some x' \<Rightarrow>
                          map_option (\<lambda>x''. td_cleanup h td status x'' us)
                            (inc_deq h ep_ring False x')))))"



subsection \<open>The transfer-descriptor builders\<close>

text \<open>
  Modelled from the spec: the macros \<^verbatim>\<open>TRB_MAX_BUFF_SHIFT\<close> and \<^verbatim>\<open>TRB_MAX_BUFF_SIZE\<close> of
  xhci.h, which is not at hand. The spec caps every TRB at 64KB and the comments of
  xhci.c speak of 64KB boundaries; the code uses \<^verbatim>\<open>(1 << TRB_MAX_BUFF_SHIFT) - 1\<close> as the
  mask of the offset within such a region.
\<close>

definition TRB_MAX_BUFF_SHIFT :: nat where
  "TRB_MAX_BUFF_SHIFT = 16"

definition TRB_MAX_BUFF_SIZE :: u32 where
  "TRB_MAX_BUFF_SIZE = push_bit TRB_MAX_BUFF_SHIFT 1"

text \<open>
  \<^verbatim>\<open>xhci_td_remainder\<close>. All four arguments are \<^verbatim>\<open>unsigned\<close>. A division by \<^verbatim>\<open>maxp = 0\<close>
  traps; the model gives \<open>None\<close>. \<^verbatim>\<open>DIV_ROUND_UP(n, d)\<close> is \<^verbatim>\<open>((n) + (d) - 1) / (d)\<close>. The
  comparison of the \<^verbatim>\<open>int remainder\<close> with the \<^verbatim>\<open>u32 max\<close> is unsigned.
\<close>

definition xhci_td_remainder :: "u32 \<Rightarrow> u32 \<Rightarrow> u32 \<Rightarrow> u32 \<Rightarrow> u32 option" where
  "xhci_td_remainder td_transfer_size td_running_total maxp trb_buffer_length =
     (if td_running_total + trb_buffer_length = td_transfer_size then Some 0
      else if maxp = 0 then None
      else
        let packet_transferred = td_running_total div maxp;
            td_packet_count = (td_transfer_size + maxp - 1) div maxp;
            remainder = td_packet_count - packet_transferred
        in if remainder > 31 then Some (push_bit 17 31) else Some (push_bit 17 remainder))"

text \<open>
  The \<^verbatim>\<open>switch (urb->dev->speed)\<close> of the bulk builders; \<^verbatim>\<open>max_packet\<close> starts as 0 in
  \<^verbatim>\<open>xhci_queue_bulk_tx\<close> and keeps that value in the \<^verbatim>\<open>default\<close> case.
\<close>

definition bulk_max_packet :: "urb \<Rightarrow> u32" where
  "bulk_max_packet u =
     (case dev_speed u of
        USB_SPEED_SUPER \<Rightarrow> ucast (wMaxPacketSize u)
      | USB_SPEED_HIGH \<Rightarrow> ucast (wMaxPacketSize u) AND 0x7ff
      | USB_SPEED_FULL \<Rightarrow> ucast (wMaxPacketSize u) AND 0x7ff
      | USB_SPEED_LOW \<Rightarrow> ucast (wMaxPacketSize u) AND 0x7ff
      | _ \<Rightarrow> 0)"

text \<open>
  \<^verbatim>\<open>TRB_MAX_BUFF_SIZE - (addr & ((1 << TRB_MAX_BUFF_SHIFT) - 1))\<close>, computed in 64 bits and
  stored in an \<^verbatim>\<open>int\<close>: the bytes from \<open>addr\<close> to the next 64KB boundary.
\<close>

definition bytes_to_boundary :: "u64 \<Rightarrow> u32" where
  "bytes_to_boundary addr = ucast (ucast TRB_MAX_BUFF_SIZE - (addr AND (push_bit TRB_MAX_BUFF_SHIFT 1 - 1)))"

text \<open>
  \<^verbatim>\<open>while (running_total < len) { num_trbs++; running_total += TRB_MAX_BUFF_SIZE; }\<close>, with
  the \<^verbatim>\<open>int running_total\<close> compared as unsigned. The addition can wrap around, and the
  loop then need not end.
\<close>

partial_function (option) count_chunks_loop :: "u32 \<Rightarrow> u32 \<Rightarrow> u32 \<Rightarrow> u32 option" where
  "count_chunks_loop len num_trbs running_total =
     (if running_total < len
      then count_chunks_loop len (num_trbs + 1) (running_total + TRB_MAX_BUFF_SIZE)
      else Some num_trbs)"

text \<open>
  What one pass of a builder loop hands to \<^verbatim>\<open>queue_trb\<close>: the buffer address, the length
  \<^verbatim>\<open>trb_buff_len\<close> that goes through \<^verbatim>\<open>TRB_LEN\<close> into the length word, the value of
  \<^verbatim>\<open>xhci_td_remainder\<close> that is or-ed into the same word, and whether the TRB is chained to
  the next one (\<^verbatim>\<open>TRB_CHAIN\<close> and \<^verbatim>\<open>more_trbs_coming\<close>) or ends the TD (\<^verbatim>\<open>TRB_IOC\<close>). With
  the test switch \<^verbatim>\<open>g_idt_transfer\<close> on an OUT endpoint the two pointer words carry the first
  eight bytes of the buffer instead of \<open>trb_addr\<close>. The other bits of the control word
  (\<^verbatim>\<open>TRB_ISP\<close>, the type \<^verbatim>\<open>TRB_NORMAL\<close>, the cycle bit, \<^verbatim>\<open>TRB_BEI\<close> under the test switch
  \<^verbatim>\<open>g_is_bei\<close>) are not recorded.
\<close>

record bulk_trb =
  trb_addr :: u64
  trb_buff_len :: u32
  td_remainder :: u32
  trb_chain :: bool
  trb_idt :: bool

text \<open>
  The \<^verbatim>\<open>do ... while (num_trbs > 0)\<close> loop of \<^verbatim>\<open>xhci_queue_bulk_tx\<close>. \<^verbatim>\<open>num_trbs\<close>,
  \<^verbatim>\<open>running_total\<close> and \<^verbatim>\<open>trb_buff_len\<close> are \<^verbatim>\<open>int\<close>: comparisons among them and with
  \<^verbatim>\<open>TRB_MAX_BUFF_SIZE\<close> are signed, \<^verbatim>\<open>addr += trb_buff_len\<close> sign-extends.
\<close>

function bulk_tx_loop ::
  "bool \<Rightarrow> u32 \<Rightarrow> u32 \<Rightarrow> u32 \<Rightarrow> u32 \<Rightarrow> u64 \<Rightarrow> u32 \<Rightarrow> bulk_trb list option" where
  "bulk_tx_loop idt len max_packet num_trbs running_total addr trb_buff_len' =
     (case xhci_td_remainder len running_total max_packet trb_buff_len' of
        None \<Rightarrow> None
      | Some remainder \<Rightarrow>
          let t = \<lparr>trb_addr = addr, trb_buff_len = trb_buff_len', td_remainder = remainder,
                   trb_chain = (1 <s num_trbs), trb_idt = idt\<rparr>;
              num_trbs1 = num_trbs - 1;
              running_total1 = running_total + trb_buff_len';
              addr1 = addr + scast trb_buff_len';
              rest = len - running_total1;
              trb_buff_len1 = (if TRB_MAX_BUFF_SIZE <s rest then TRB_MAX_BUFF_SIZE else rest)
          in if 0 <s num_trbs1
             then map_option (Cons t)
                    (bulk_tx_loop idt len max_packet num_trbs1 running_total1 addr1 trb_buff_len1)
             else Some [t])"
  by pat_completeness auto
termination
proof (relation "measure (\<lambda>(idt, len, max_packet, num_trbs, rest). unat (num_trbs - 1))", goal_cases)
  case 1
  show ?case by simp
next
  case (2 idt len max_packet num_trbs running_total addr trb_buff_len' remainder t n1 rt1 a1 rest tbl1)
  then have "n1 \<noteq> 0" by (auto simp: word_sless_alt)
  then have "unat (n1 - 1) < unat n1"
    by (simp add: unat_minus_one unat_gt_0)
  with 2 show ?case by simp
qed

declare bulk_tx_loop.simps [simp del]

text \<open>
  The loop of \<^verbatim>\<open>count_sg_trbs_needed\<close> over the scatter-gather list. \<open>n\<close> is the number
  of entries that \<^verbatim>\<open>for_each_sg\<close> has yet to visit; stepping past the end of the list
  dereferences a null pointer (\<open>None\<close>).
\<close>

fun count_sg_loop :: "(u64 \<times> u32) list \<Rightarrow> u32 \<Rightarrow> u32 \<Rightarrow> u32 \<Rightarrow> u32 option" where
  "count_sg_loop [] n num_trbs temp = (if 0 <s n then None else Some num_trbs)"
| "count_sg_loop ((a, l) # sgs) n num_trbs temp =
     (if 0 <s n then
        let running_total = bytes_to_boundary a;
            num_trbs1 = (if running_total \<noteq> 0 then num_trbs + 1 else num_trbs)
        in case count_chunks_loop l num_trbs1 running_total of
             None \<Rightarrow> None
           | Some num_trbs2 \<Rightarrow>
               let len = (if l <s temp then l else temp);
                   temp1 = temp - len
               in if temp1 = 0 then Some num_trbs2
                  else count_sg_loop sgs (n - 1) num_trbs2 temp1
      else Some num_trbs)"

definition count_sg_trbs_needed :: "urb \<Rightarrow> u32 option" where
  "count_sg_trbs_needed u = count_sg_loop (sg u) (num_sgs u) 0 (transfer_buffer_length u)"

text \<open>
  The \<^verbatim>\<open>do ... while (num_trbs > 0)\<close> loop of \<^verbatim>\<open>queue_bulk_sg_tx\<close>. Here \<^verbatim>\<open>num_trbs\<close> is
  \<^verbatim>\<open>unsigned int\<close>, so the tests \<^verbatim>\<open>num_trbs > 1\<close> and \<^verbatim>\<open>num_trbs > 0\<close> are unsigned, and a
  count of 0 wraps around at the decrement; \<^verbatim>\<open>trb_buff_len\<close>, \<^verbatim>\<open>this_sg_len\<close> and
  \<^verbatim>\<open>running_total\<close> are \<^verbatim>\<open>int\<close>: \<^verbatim>\<open>min_t(int, ...)\<close> compares signed, the comparison with
  the \<^verbatim>\<open>u32\<close> transfer length is unsigned. \<open>sgs\<close> are the list entries after the current
  one. The result is the TRBs and the value of \<^verbatim>\<open>addr\<close> at the end of the loop, which the
  zero-length TRB uses.
\<close>

function bulk_sg_loop ::
  "u32 \<Rightarrow> u32 \<Rightarrow> bool \<Rightarrow> u32 \<Rightarrow> u32 \<Rightarrow> (u64 \<times> u32) list \<Rightarrow> u32 \<Rightarrow> u64 \<Rightarrow> u32 \<Rightarrow> u32
     \<Rightarrow> (bulk_trb list \<times> u64) option" where
  "bulk_sg_loop len max_packet zlp num_trbs num_sgs' sgs running_total addr this_sg_len trb_buff_len' =
     (case xhci_td_remainder len running_total max_packet trb_buff_len' of
        None \<Rightarrow> None
      | Some remainder \<Rightarrow>
          let t = \<lparr>trb_addr = addr, trb_buff_len = trb_buff_len', td_remainder = remainder,
                   trb_chain = (1 < num_trbs \<or> zlp), trb_idt = False\<rparr>;
              num_trbs1 = num_trbs - 1;
              running_total1 = running_total + trb_buff_len';
              this_sg_len1 = this_sg_len - trb_buff_len';
              continue = (\<lambda>num_sgs1 sgs1 addr1 this_sg_len2.
                let b = bytes_to_boundary addr1;
                    l1 = (if b <s this_sg_len2 then b else this_sg_len2);
                    l2 = (if running_total1 + l1 > len then len - running_total1 else l1)
                in if 0 < num_trbs1
                   then map_option (\<lambda>(ts, a). (t # ts, a))
                          (bulk_sg_loop len max_packet zlp num_trbs1 num_sgs1 sgs1 running_total1
                             addr1 this_sg_len2 l2)
                   else Some ([t], addr1))
          in
          if this_sg_len1 = 0 then
            (if num_sgs' - 1 = 0 then Some ([t], addr)
             else (case sgs of
                     [] \<Rightarrow> None
                   | (a, l) # sgs1 \<Rightarrow> continue (num_sgs' - 1) sgs1 a l))
          else continue num_sgs' sgs (addr + scast trb_buff_len') this_sg_len1)"
  by pat_completeness auto
termination
proof (relation "measure (\<lambda>(len, max_packet, zlp, num_trbs, rest). unat (num_trbs - 1))", goal_cases)
  case 1
  show ?case by simp
next
  case 2
  have dec: "unat (n - 1) < unat n" if "n \<noteq> 0" for n :: u32
    using that by (simp add: unat_minus_one unat_gt_0)
  have key: "unat (n - 2) < unat (n - 1)" if "0 < n - 1" for n :: u32
  proof -
    from that have "n - 1 \<noteq> 0" by auto
    from dec [OF this] show ?thesis by simp
  qed
  from 2 show ?case by (simp add: key)
qed

declare bulk_sg_loop.simps [simp del]

text \<open>
  The \<^verbatim>\<open>switch (urb->dev->speed)\<close> of \<^verbatim>\<open>queue_bulk_sg_tx\<close>, where \<^verbatim>\<open>max_packet\<close> has no
  initial value: in the \<^verbatim>\<open>default\<close> case the value that is read afterwards is
  indeterminate (\<open>None\<close>).
\<close>

definition sg_max_packet :: "urb \<Rightarrow> u32 option" where
  "sg_max_packet u =
     (case dev_speed u of
        USB_SPEED_SUPER \<Rightarrow> Some (ucast (wMaxPacketSize u))
      | USB_SPEED_HIGH \<Rightarrow> Some (ucast (wMaxPacketSize u) AND 0x7ff)
      | USB_SPEED_FULL \<Rightarrow> Some (ucast (wMaxPacketSize u) AND 0x7ff)
      | USB_SPEED_LOW \<Rightarrow> Some (ucast (wMaxPacketSize u) AND 0x7ff)
      | _ \<Rightarrow> None)"

text \<open>
  The TRBs of \<^verbatim>\<open>queue_bulk_sg_tx\<close>, with the count \<^verbatim>\<open>num_trbs\<close> that goes to
  \<^verbatim>\<open>prepare_transfer\<close>. An empty list dereferences a null \<^verbatim>\<open>urb->sg\<close>; the remainder
  \<^verbatim>\<open>len % max_packet\<close> traps for \<^verbatim>\<open>max_packet = 0\<close>. The zero-length TRB that follows the
  loop when \<^verbatim>\<open>zlp\<close> is set is not part of the count.
\<close>

definition queue_bulk_sg_tx_trbs :: "xhci_h \<Rightarrow> urb \<Rightarrow> (u32 \<times> bulk_trb list) option" where
  "queue_bulk_sg_tx_trbs h u =
     (case count_sg_trbs_needed u of
        None \<Rightarrow> None
      | Some num_trbs \<Rightarrow>
          (case sg_max_packet u of
             None \<Rightarrow> None
           | Some max_packet \<Rightarrow>
               let len = transfer_buffer_length u in
               if transfer_flags u AND URB_ZERO_PACKET h \<noteq> 0 \<and> max_packet = 0 then None
               else
                 let zlp = (transfer_flags u AND URB_ZERO_PACKET h \<noteq> 0 \<and> len mod max_packet = 0) in
                 (case sg u of
                    [] \<Rightarrow> None
                  | (a, l) # sgs \<Rightarrow>
                      let b = bytes_to_boundary a;
                          l1 = (if b <s l then b else l);
                          l2 = (if l1 > len then len else l1)
                      in case bulk_sg_loop len max_packet zlp num_trbs (num_sgs u) sgs 0 a l l2 of
                           None \<Rightarrow> None
                         | Some (ts, addr) \<Rightarrow>
                             Some (num_trbs,
                               ts @ (if zlp
                                     then [\<lparr>trb_addr = addr, trb_buff_len = 0, td_remainder = 0,
                                             trb_chain = False, trb_idt = False\<rparr>]
                                     else [])))))"

text \<open>
  The TRBs of \<^verbatim>\<open>xhci_queue_bulk_tx\<close>, with the count \<^verbatim>\<open>num_trbs\<close> that goes to
  \<^verbatim>\<open>prepare_transfer\<close>. \<open>g_idt_transfer\<close> is the test switch of that name.
\<close>

definition xhci_queue_bulk_tx_trbs :: "xhci_h \<Rightarrow> bool \<Rightarrow> urb \<Rightarrow> (u32 \<times> bulk_trb list) option" where
  "xhci_queue_bulk_tx_trbs h g_idt_transfer u =
     (if num_sgs u \<noteq> 0 then queue_bulk_sg_tx_trbs h u
      else
        let len = transfer_buffer_length u;
            running_total = bytes_to_boundary (transfer_dma u);
            num_trbs0 = (if running_total \<noteq> 0 \<or> len = 0 then 1 else 0)
        in case count_chunks_loop len num_trbs0 running_total of
             None \<Rightarrow> None
           | Some num_trbs1 \<Rightarrow>
               let max_packet = bulk_max_packet u in
               if transfer_flags u AND URB_ZERO_PACKET h \<noteq> 0 \<and> max_packet = 0 then None
               else
                 let num_trbs = (if transfer_flags u AND URB_ZERO_PACKET h \<noteq> 0 \<and> len mod max_packet = 0
                                 then num_trbs1 + 1 else num_trbs1);
                     b = bytes_to_boundary (transfer_dma u);
                     trb_buff_len0 = (if len < b then len else b)
                 in map_option (Pair num_trbs)
                      (bulk_tx_loop (g_idt_transfer \<and> \<not> ep_dir_in u) len max_packet num_trbs 0
                         (transfer_dma u) trb_buff_len0))"

text \<open>
  What \<^verbatim>\<open>xhci_queue_ctrl_tx\<close> hands to \<^verbatim>\<open>queue_trb\<close>: the stage (which of \<^verbatim>\<open>TRB_SETUP\<close>,
  \<^verbatim>\<open>TRB_DATA\<close>, \<^verbatim>\<open>TRB_STATUS\<close> goes through \<^verbatim>\<open>TRB_TYPE\<close> into the control word), the first
  three words, the other bits of the control word apart from the cycle bit, and
  \<^verbatim>\<open>more_trbs_coming\<close>.
\<close>

datatype ctrl_stage = Setup_TRB | Data_TRB | Status_TRB

record ctrl_trb =
  stage :: ctrl_stage
  word0 :: u32
  word1 :: u32
  word2 :: u32
  ctrl_bits :: u32
  more_coming :: bool

text \<open>
  The TRBs of \<^verbatim>\<open>xhci_queue_ctrl_tx\<close>, with the count \<^verbatim>\<open>num_trbs\<close> that goes to
  \<^verbatim>\<open>prepare_transfer\<close>; \<open>Inl EINVAL\<close> is the return for a null setup packet.
  \<^verbatim>\<open>max_packet\<close> is the endpoint's \<^verbatim>\<open>wMaxPacketSize\<close>; the remainder traps when it is 0.
\<close>

definition xhci_queue_ctrl_tx_trbs :: "xhci_h \<Rightarrow> urb \<Rightarrow> (errno + u32 \<times> ctrl_trb list) option" where
  "xhci_queue_ctrl_tx_trbs h u =
     (case setup_packet u of
        None \<Rightarrow> Some (Inl EINVAL)
      | Some setup \<Rightarrow>
          let len = transfer_buffer_length u;
              num_trbs = (if len > 0 then 3 else 2);
              is_in = (bRequestType setup AND USB_DIR_IN h \<noteq> 0);
              trt = (if num_trbs = 2 then TRB_TRT h (TRT_NO_DATA h)
                     else if is_in then TRB_TRT h (TRT_IN_DATA h)
                     else TRB_TRT h (TRT_OUT_DATA h));
              setup_trb = \<lparr>stage = Setup_TRB,
                 word0 = ucast (bRequestType setup) OR push_bit 8 (ucast (bRequest setup))
                           OR push_bit 16 (ucast (wValue setup)),
                 word1 = ucast (wIndex setup) OR push_bit 16 (ucast (wLength setup)),
                 word2 = TRB_LEN h 8 OR TRB_INTR_TARGET h 0,
                 ctrl_bits = TRB_IDT h OR trt, more_coming = True\<rparr>;
              length_field = TRB_LEN h len OR TRB_INTR_TARGET h 0;
              field = (if len > 0 \<and> is_in then TRB_DIR_IN h else 0);
              data_trbs = (if len > 0
                 then [\<lparr>stage = Data_TRB, word0 = ucast (transfer_dma u),
                         word1 = ucast (drop_bit 32 (transfer_dma u)), word2 = length_field,
                         ctrl_bits = field OR TRB_ISP h, more_coming = True\<rparr>]
                 else []);
              max_packet = (ucast (wMaxPacketSize u) :: u32)
          in
          if transfer_flags u AND URB_ZERO_PACKET h \<noteq> 0 \<and> max_packet = 0 then None
          else
            let zlp = (transfer_flags u AND URB_ZERO_PACKET h \<noteq> 0 \<and> len mod max_packet = 0);
                field' = (if zlp \<and> is_in then field OR TRB_DIR_IN h else field);
                zlp_trbs = (if zlp
                  then [\<lparr>stage = Data_TRB, word0 = ucast (transfer_dma u),
                          word1 = ucast (drop_bit 32 (transfer_dma u)), word2 = 0,
                          ctrl_bits = field' OR TRB_ISP h, more_coming = True\<rparr>]
                  else []);
                status_trb = \<lparr>stage = Status_TRB, word0 = 0, word1 = 0,
                   word2 = TRB_INTR_TARGET h 0,
                   ctrl_bits = (if len > 0 \<and> is_in then 0 else TRB_DIR_IN h) OR TRB_IOC h,
                   more_coming = False\<rparr>
            in Some (Inr (num_trbs, [setup_trb] @ data_trbs @ zlp_trbs @ [status_trb])))"

subsection \<open>Vocabulary for the statements\<close>

text \<open>A TRB is a link TRB, and a link TRB carries the toggle-cycle flag.\<close>

definition is_link :: "xhci_h \<Rightarrow> xhci_generic_trb \<Rightarrow> bool" where
  "is_link h t = (link_control t AND TRB_TYPE_BITMASK h = TRB_TYPE h (TRB_LINK h))"

definition has_toggle :: "xhci_h \<Rightarrow> xhci_generic_trb \<Rightarrow> bool" where
  "has_toggle h t = (link_control t AND LINK_TOGGLE h \<noteq> 0)"

text \<open>
  The link TRB as \<^verbatim>\<open>inc_enq\<close> hands it to the hardware: the chain bit of the TRB
  before it carried over (unless the controller has the link-TRB quirk), the cycle bit
  flipped.
\<close>

definition give_link :: "xhci_h \<Rightarrow> bool \<Rightarrow> u32 \<Rightarrow> xhci_generic_trb \<Rightarrow> xhci_generic_trb" where
  "give_link h quirk chain t =
     t\<lparr>field3 := (if quirk then field3 t else (field3 t AND NOT (TRB_CHAIN h)) OR chain) XOR TRB_CYCLE h\<rparr>"

text \<open>
  The link TRB as \<^verbatim>\<open>prepare_ring\<close> hands it to the hardware: the chain bit cleared (set
  on a controller with the link-TRB quirk), the cycle bit flipped.
\<close>

definition give_link_late :: "xhci_h \<Rightarrow> bool \<Rightarrow> xhci_generic_trb \<Rightarrow> xhci_generic_trb" where
  "give_link_late h quirk t =
     t\<lparr>field3 := (if quirk then field3 t OR TRB_CHAIN h else field3 t AND NOT (TRB_CHAIN h)) XOR TRB_CYCLE h\<rparr>"

text \<open>The command types that the \<^verbatim>\<open>switch\<close> of \<^verbatim>\<open>handle_cmd_completion\<close> has a case for.\<close>

definition handled_cmd_type :: "xhci_h \<Rightarrow> u32 \<Rightarrow> bool" where
  "handled_cmd_type h ty =
     (ty \<in> TRB_TYPE h ` {TRB_CMD_NOOP h, TRB_ENABLE_SLOT h, TRB_DISABLE_SLOT h, TRB_ADDR_DEV h,
         TRB_CONFIG_EP h, TRB_RESET_DEV h, TRB_STOP_RING h, TRB_SET_DEQ h, TRB_EVAL_CONTEXT h,
         TRB_RESET_EP h})"

text \<open>The case labels of that \<^verbatim>\<open>switch\<close>, in the order of the source.\<close>

definition cmd_case_labels :: "xhci_h \<Rightarrow> u32 list" where
  "cmd_case_labels h =
     map (TRB_TYPE h) [TRB_CMD_NOOP h, TRB_ENABLE_SLOT h, TRB_DISABLE_SLOT h, TRB_ADDR_DEV h,
       TRB_CONFIG_EP h, TRB_RESET_DEV h, TRB_STOP_RING h, TRB_SET_DEQ h, TRB_EVAL_CONTEXT h,
       TRB_RESET_EP h]"

subsection \<open>A concrete controller for the examples\<close>

text \<open>
  The header constants with the values of the Linux xHCI header, and a controller with a
  transfer ring (ring 1) of two segments of 64 TRBs (segment 1 at TRB address 1000,
  segment 2 at 2000, each ending in a link TRB, the second with the toggle flag), a
  command ring (ring 2, segment 4) and an event ring (ring 3, segment 3) of one segment
  each.
\<close>

definition xhci_h_linux :: xhci_h where
  "xhci_h_linux =
     \<lparr>TRBS_PER_SEGMENT = 64, TRB_TYPE_BITMASK = 0xfc00, TRB_TYPE = (\<lambda>p. push_bit 10 p),
      TRB_LINK = 6, TRB_CMD_NOOP = 23, TRB_ENABLE_SLOT = 9, TRB_DISABLE_SLOT = 10,
      TRB_ADDR_DEV = 11, TRB_CONFIG_EP = 12, TRB_RESET_DEV = 17, TRB_STOP_RING = 15,
      TRB_SET_DEQ = 16, TRB_EVAL_CONTEXT = 13, TRB_RESET_EP = 14,
      LINK_TOGGLE = 2, TRB_CHAIN = 0x10, TRB_CYCLE = 1,
      TRB_TO_SLOT_ID = (\<lambda>p. unat (drop_bit 24 p)),
      TRB_TO_EP_ID = (\<lambda>p. unat (drop_bit 16 p AND 0x1f)),
      TRB_TO_EP_INDEX = (\<lambda>p. (drop_bit 16 p AND 0x1f) - 1),
      GET_COMP_CODE = (\<lambda>p. drop_bit 24 p),
      COMP_SUCCESS = 1, COMP_CMD_ABORT = 25, COMP_CMD_STOP = 24, COMP_STOP = 26,
      COMP_STOP_INVAL = 27, COMP_STALL = 6, COMP_TX_ERR = 4, COMP_BABBLE = 3,
      COMP_SPLIT_ERR = 36, COMP_UNDERRUN = 14, COMP_OVERRUN = 15,
      SET_DEQ_PENDING = 1, EP_HALTED = 2, EP_HALT_PENDING = 4,
      DB_MASK = 0xff00, EPI_TO_DB = (\<lambda>p. of_nat (p + 1) AND 0xff),
      STREAM_ID_TO_DB = (\<lambda>p. push_bit 16 (p AND 0xffff)),
      ERST_PTR_MASK = 0xf, ERST_EHB = 8, URB_SHORT_NOT_OK = 1, URB_ZERO_PACKET = 0x40,
      USB_DIR_IN = 0x80, TRB_NORMAL = 1, TRB_SETUP = 2, TRB_DATA = 3, TRB_STATUS = 4,
      TRB_IDT = 0x40, TRB_IOC = 0x20, TRB_ISP = 4, TRB_BEI = 0x200, TRB_DIR_IN = 0x10000,
      TRB_TRT = (\<lambda>p. push_bit 16 p), TRT_NO_DATA = 0, TRT_IN_DATA = 3, TRT_OUT_DATA = 2,
      TRB_LEN = (\<lambda>p. p AND 0x1ffff), TRB_INTR_TARGET = (\<lambda>p. push_bit 22 (p AND 0x3ff))\<rparr>"

definition ex_trb :: "u32 \<Rightarrow> xhci_generic_trb" where
  "ex_trb c = \<lparr>field0 = 0, field1 = 0, field2 = 0, field3 = c\<rparr>"

definition ex_segs :: "seg_ptr \<Rightarrow> xhci_segment" where
  "ex_segs s =
     (if s = 1 then \<lparr>trbs = 1000, dma = 0x10000, seg_next = 2\<rparr>
      else if s = 2 then \<lparr>trbs = 2000, dma = 0x20000, seg_next = 1\<rparr>
      else if s = 3 then \<lparr>trbs = 3000, dma = 0x30000, seg_next = 3\<rparr>
      else if s = 4 then \<lparr>trbs = 4000, dma = 0x40000, seg_next = 4\<rparr>
      else \<lparr>trbs = 0, dma = 0, seg_next = 0\<rparr>)"

definition ex_mem :: "trb_ptr \<Rightarrow> xhci_generic_trb" where
  "ex_mem p =
     (if p = 1063 then ex_trb 0x1800
      else if p = 2063 then ex_trb 0x1802
      else if p = 4063 then ex_trb 0x1802
      else ex_trb 0)"

definition ex_ring :: "seg_ptr \<Rightarrow> trb_ptr \<Rightarrow> seg_ptr \<Rightarrow> trb_ptr \<Rightarrow> seg_ptr \<Rightarrow> td_ptr list \<Rightarrow> xhci_ring" where
  "ex_ring fs enq es deq ds tdl =
     \<lparr>first_seg = fs, enqueue = enq, enq_seg = es, enq_updates = 0,
      dequeue = deq, deq_seg = ds, deq_updates = 0, cycle_state = 1, td_list = tdl,
      ring_stream_id = 0\<rparr>"

definition ex_ep :: "u32 \<Rightarrow> xhci_virt_ep" where
  "ex_ep st = \<lparr>ep_state = st, stopped_td = 0, stopped_trb = 0, stopped_stream = 0\<rparr>"

definition ex_hcd :: "xhci_ring \<Rightarrow> xhci_hcd" where
  "ex_hcd tr =
     \<lparr>segs = ex_segs, mem = ex_mem,
      rings = (\<lambda>r. if r = 1 then tr
                   else if r = 2 then ex_ring 4 4000 4 4000 4 []
                   else ex_ring 3 3000 3 3000 3 []),
      devs = (\<lambda>s. if s = 1 then Some \<lparr>eps = (\<lambda>i. ex_ep 0), out_ctx_ep_state = (\<lambda>i. EP_STATE_RUNNING)\<rparr> else None),
      event_ring = 3, cmd_ring = 2, link_trb_quirk = False, error_bitmask = 0,
      doorbell = (\<lambda>s. 0), doorbell_writes = [], erst_dequeue = 0,
      g_slot_id = 0, g_cmd_status = CMD_RUNNING\<rparr>"


definition ex_state_a :: xhci_hcd where
  "ex_state_a = ex_hcd (ex_ring 1 2062 2 1062 1 [])"

definition ex_state_b :: xhci_hcd where
  "ex_state_b = ex_hcd (ex_ring 1 1000 1 2062 2 [])"

text \<open>The example controller with endpoint 0 of slot 1 halted: \<^verbatim>\<open>EP_HALTED\<close> is set in the
  driver's endpoint state and the endpoint context reports the halted state.\<close>

definition ex_state_halted :: xhci_hcd where
  "ex_state_halted = ex_state_a\<lparr>devs := (\<lambda>s. if s = 1
       then Some \<lparr>eps = (\<lambda>i. ex_ep 2), out_ctx_ep_state = (\<lambda>i. EP_STATE_HALTED)\<rparr> else None)\<rparr>"

text \<open>
  The example controller with an Enable Slot command under the dequeue pointer of the
  command ring, and a command completion event for the command TRB at DMA address
  \<open>0x40000\<close> with a given completion code (slot 5).
\<close>

definition ex_state_cmd :: xhci_hcd where
  "ex_state_cmd = ex_state_a\<lparr>mem := (mem ex_state_a)(4000 := ex_trb 0x2400)\<rparr>"

definition ex_cmd_event :: "u32 \<Rightarrow> xhci_generic_trb" where
  "ex_cmd_event code = \<lparr>field0 = 0x40000, field1 = 0, field2 = push_bit 24 code, field3 = 0x05008401\<rparr>"

text \<open>
  The example controller with an Address Device command under the dequeue pointer of the
  command ring; the controller with every endpoint of slot 1 halted and a Reset Endpoint
  command for endpoint ID 2 there; and the completion event for slot 1.
\<close>

definition ex_state_addr_dev :: xhci_hcd where
  "ex_state_addr_dev = ex_state_a\<lparr>mem := (mem ex_state_a)(4000 := ex_trb 0x2C00)\<rparr>"

definition ex_state_reset_ep :: xhci_hcd where
  "ex_state_reset_ep = ex_state_halted\<lparr>mem := (mem ex_state_halted)(4000 := ex_trb 0x23800)\<rparr>"

definition ex_cmd_event_slot1 :: "u32 \<Rightarrow> xhci_generic_trb" where
  "ex_cmd_event_slot1 code = (ex_cmd_event code)\<lparr>field3 := 0x01008401\<rparr>"

text \<open>
  A URB of 100 bytes whose \<^verbatim>\<open>actual_length\<close> has wrapped below zero, its TD (first TRB at
  1000, last TRB at 1001) pending on the transfer ring, and a transfer event for slot 1,
  endpoint ID 1 with a given buffer address and completion code.
\<close>

definition ex_urb :: "u32 \<Rightarrow> u32 \<Rightarrow> int \<Rightarrow> urb" where
  "ex_urb len act cnt =
     \<lparr>transfer_buffer_length = len, actual_length = act, transfer_flags = 0,
      transfer_dma = 0x5000, num_sgs = 0, sg = [], setup_packet = None,
      dev_speed = USB_SPEED_HIGH, wMaxPacketSize = 512, ep_dir_in = False,
      td_cnt = cnt, priv_length = 1\<rparr>"

definition ex_urbs :: urb_store where
  "ex_urbs =
     \<lparr>urbs = (\<lambda>p. ex_urb 100 0xFFFFFFF0 0),
      tds = (\<lambda>t. \<lparr>td_urb = 1, td_start_seg = 1, td_first_trb = 1000, td_last_trb = 1001\<rparr>)\<rparr>"

definition ex_state_td :: xhci_hcd where
  "ex_state_td = ex_hcd (ex_ring 1 1002 1 1000 1 [1])"

definition ex_tx_event :: "u32 \<Rightarrow> u32 \<Rightarrow> xhci_generic_trb" where
  "ex_tx_event buf code = \<lparr>field0 = buf, field1 = 0, field2 = push_bit 24 code, field3 = 0x01018001\<rparr>"

text \<open>A control URB for the examples: \<^verbatim>\<open>GET_DESCRIPTOR\<close>, device to host, endpoint 0 with 64-byte packets.\<close>

definition ex_setup :: usb_ctrlrequest where
  "ex_setup = \<lparr>bRequestType = 0x80, bRequest = 6, wValue = 0x100, wIndex = 0, wLength = 18\<rparr>"

definition ex_ctrl_urb :: "u32 \<Rightarrow> u32 \<Rightarrow> urb" where
  "ex_ctrl_urb len flags =
     (ex_urb len 0 0)\<lparr>transfer_flags := flags, setup_packet := Some ex_setup, wMaxPacketSize := 64\<rparr>"

text \<open>
  Vocabulary for the bulk builder: the bytes that the first \<open>i\<close> TRBs of a TD carry, and
  the number of packets of \<open>maxp\<close> bytes, of a transfer of \<open>len\<close> bytes, that are not yet
  complete when \<open>q\<close> bytes have been queued (the packets of the whole transfer, rounded up,
  less the packets that fit in \<open>q\<close> bytes, rounded down).
\<close>

definition queued :: "bulk_trb list \<Rightarrow> nat \<Rightarrow> nat" where
  "queued ts i = sum_list (map (\<lambda>t. unat (trb_buff_len t)) (take i ts))"

definition packets_from :: "nat \<Rightarrow> nat \<Rightarrow> nat \<Rightarrow> nat" where
  "packets_from len maxp q = (len + maxp - 1) div maxp - q div maxp"

text \<open>Bulk URBs for the examples: a high-speed endpoint with packets of 1024 bytes.\<close>

definition ex_bulk_urb :: "u64 \<Rightarrow> u32 \<Rightarrow> u32 \<Rightarrow> urb" where
  "ex_bulk_urb addr len flags =
     (ex_urb len 0 0)\<lparr>transfer_flags := flags, transfer_dma := addr, wMaxPacketSize := 1024\<rparr>"

text \<open>
  Vocabulary for the room check. \<open>ring_layout h x ss\<close>: the segments \<open>ss\<close>, in this order,
  form a ring through their \<^verbatim>\<open>next\<close> pointers; each has \<^verbatim>\<open>TRBS_PER_SEGMENT\<close> TRBs, of which
  the last one, and no other, is a link TRB; and no TRB belongs to two segments. With
  \<open>T = TRBS_PER_SEGMENT - 1\<close> usable TRBs in a segment, \<open>slot x ss T p\<close> is the segment and
  the address of the \<open>p\<close>-th usable TRB of the ring. \<open>slots_between K p q\<close> counts the
  advances that lead from slot \<open>p\<close> to slot \<open>q\<close> on a ring of \<open>K\<close> slots, and
  \<open>free_slots K pe pd\<close> the slots that are free when the enqueue cursor is at slot \<open>pe\<close> and
  the dequeue cursor at slot \<open>pd\<close>: all of them when the cursors meet (the ring is empty),
  otherwise the slots from the enqueue cursor up to the dequeue cursor.
\<close>

definition ring_layout :: "xhci_h \<Rightarrow> xhci_hcd \<Rightarrow> seg_ptr list \<Rightarrow> bool" where
  "ring_layout h x ss \<longleftrightarrow>
     ss \<noteq> [] \<and> distinct ss \<and> 2 \<le> TRBS_PER_SEGMENT h \<and>
     (\<forall>i<length ss. seg_next (segs x (ss ! i)) = ss ! (Suc i mod length ss)) \<and>
     (\<forall>i<length ss. \<forall>j<TRBS_PER_SEGMENT h.
        is_link h (mem x (trbs (segs x (ss ! i)) + j)) \<longleftrightarrow> j = TRBS_PER_SEGMENT h - 1) \<and>
     (\<forall>i<length ss. \<forall>i'<length ss. \<forall>j<TRBS_PER_SEGMENT h. \<forall>j'<TRBS_PER_SEGMENT h.
        trbs (segs x (ss ! i)) + j = trbs (segs x (ss ! i')) + j' \<longrightarrow> i = i' \<and> j = j')"

definition slot :: "xhci_hcd \<Rightarrow> seg_ptr list \<Rightarrow> nat \<Rightarrow> nat \<Rightarrow> seg_ptr \<times> trb_ptr" where
  "slot x ss T p = (ss ! (p div T), trbs (segs x (ss ! (p div T))) + p mod T)"

definition slots_between :: "nat \<Rightarrow> nat \<Rightarrow> nat \<Rightarrow> nat" where
  "slots_between K p q = (if p \<le> q then q - p else K - (p - q))"

definition free_slots :: "nat \<Rightarrow> nat \<Rightarrow> nat \<Rightarrow> nat" where
  "free_slots K pe pd = (if pe = pd then K else slots_between K pe pd)"

text \<open>
  Vocabulary for the scatter-gather builder. \<open>to_boundary a\<close> is the number of bytes from
  address \<open>a\<close> to the next 64KB boundary, \<open>chunks a s\<close> the number of TRBs that
  \<^verbatim>\<open>count_sg_trbs_needed\<close> counts for a list entry of \<open>s\<close> bytes at address \<open>a\<close>, and
  \<open>sg_count sgs t\<close> its count for the list \<open>sgs\<close> when \<open>t\<close> bytes of the transfer are yet to
  be placed. \<open>sg_bytes\<close> is the size of a list. \<open>sg_list_ok u\<close>: the URB's list has
  \<^verbatim>\<open>num_sgs\<close> entries, at least one and fewer than 32768, each shorter than \<open>2\<^sup>3\<^sup>1\<close> bytes,
  and together they hold the transfer length.
\<close>

definition to_boundary :: "nat \<Rightarrow> nat" where
  "to_boundary a = 65536 - a mod 65536"

definition chunks :: "nat \<Rightarrow> nat \<Rightarrow> nat" where
  "chunks a s = 1 + (s - to_boundary a + 65535) div 65536"

fun sg_count :: "(u64 \<times> u32) list \<Rightarrow> nat \<Rightarrow> nat" where
  "sg_count [] t = 0"
| "sg_count ((a, l) # sgs) t =
     chunks (unat a) (unat l) + (if t \<le> unat l then 0 else sg_count sgs (t - unat l))"

definition sg_bytes :: "(u64 \<times> u32) list \<Rightarrow> nat" where
  "sg_bytes sgs = sum_list (map (\<lambda>(a, l). unat l) sgs)"

definition sg_list_ok :: "urb \<Rightarrow> bool" where
  "sg_list_ok u \<longleftrightarrow>
     sg u \<noteq> [] \<and> unat (num_sgs u) = length (sg u) \<and> length (sg u) < 32768 \<and>
     (\<forall>(a, l)\<in>set (sg u). unat l < 2 ^ 31) \<and>
     unat (transfer_buffer_length u) \<le> sg_bytes (sg u)"

text \<open>A bulk URB with a list of two entries, the first of which crosses a 64KB boundary.\<close>

definition ex_sg_urb :: urb where
  "ex_sg_urb = (ex_bulk_urb 0 0x120 0)\<lparr>num_sgs := 2, sg := [(0xFFF0, 0x20), (0x20000, 0x100)]\<rparr>"

section \<open>Verified properties\<close>

subsection \<open>One step of a cursor\<close>

lemma last_trb_rings_upd [simp]: "last_trb h (x\<lparr>rings := f\<rparr>) ring seg trb = last_trb h x ring seg trb"
  by (simp add: last_trb_def)

lemma last_seg_rings_upd [simp]:
  "first_seg r' = first_seg (rings x ring') \<Longrightarrow>
   last_trb_on_last_seg h (x\<lparr>rings := (rings x)(ring' := r')\<rparr>) ring seg trb =
   last_trb_on_last_seg h x ring seg trb"
  by (simp add: last_trb_on_last_seg_def)

lemma last_trb_not_event: "ring \<noteq> event_ring x \<Longrightarrow> last_trb h x ring seg trb = is_link h (mem x trb)"
  by (simp add: last_trb_def is_link_def)

lemma last_trb_event: "last_trb h x (event_ring x) seg trb = (trb = trbs (segs x seg) + TRBS_PER_SEGMENT h)"
  by (simp add: last_trb_def)

lemma last_seg_not_event:
  "ring \<noteq> event_ring x \<Longrightarrow> last_trb_on_last_seg h x ring seg trb = has_toggle h (mem x trb)"
  by (simp add: last_trb_on_last_seg_def has_toggle_def)

lemma inc_deq_loop_stop:
  "\<not> last_trb h x ring (deq_seg (rings x ring)) nxt \<Longrightarrow> inc_deq_loop h consumer ring nxt x = Some x"
  by (subst inc_deq_loop.simps) (simp add: Let_def)

lemma inc_deq_loop_step:
  "last_trb h x ring (deq_seg (rings x ring)) nxt \<Longrightarrow>
   inc_deq_loop h consumer ring nxt x =
     inc_deq_loop h consumer ring (trbs (segs x (seg_next (segs x (deq_seg (rings x ring))))))
       (x\<lparr>rings := (rings x)(ring := (rings x ring)
          \<lparr>cycle_state := (if consumer \<and> last_trb_on_last_seg h x ring (deq_seg (rings x ring)) nxt
                            then toggle_cycle (cycle_state (rings x ring)) else cycle_state (rings x ring)),
           deq_seg := seg_next (segs x (deq_seg (rings x ring))),
           dequeue := trbs (segs x (seg_next (segs x (deq_seg (rings x ring)))))\<rparr>)\<rparr>)"
  by (subst inc_deq_loop.simps) (simp add: Let_def)

lemma inc_deq_no_link:
  assumes "\<not> last_trb h x ring (deq_seg (rings x ring)) (dequeue (rings x ring) + 1)"
  shows "inc_deq h ring consumer x =
       Some (x\<lparr>rings := (rings x)(ring := (rings x ring)\<lparr>dequeue := dequeue (rings x ring) + 1,
                 deq_updates := deq_updates (rings x ring) + 1\<rparr>)\<rparr>)"
  using assms by (simp add: inc_deq_def Let_def inc_deq_loop_stop)

lemma inc_deq_one_link:
  assumes "last_trb h x ring (deq_seg (rings x ring)) (dequeue (rings x ring) + 1)"
    and "\<not> last_trb h x ring (seg_next (segs x (deq_seg (rings x ring))))
            (trbs (segs x (seg_next (segs x (deq_seg (rings x ring))))))"
  shows "inc_deq h ring consumer x =
       Some (x\<lparr>rings := (rings x)(ring := (rings x ring)
          \<lparr>deq_updates := deq_updates (rings x ring) + 1,
           cycle_state := (if consumer \<and> last_trb_on_last_seg h x ring (deq_seg (rings x ring)) (dequeue (rings x ring) + 1)
                            then toggle_cycle (cycle_state (rings x ring)) else cycle_state (rings x ring)),
           deq_seg := seg_next (segs x (deq_seg (rings x ring))),
           dequeue := trbs (segs x (seg_next (segs x (deq_seg (rings x ring)))))\<rparr>)\<rparr>)"
  using assms 
  by (simp add: inc_deq_def Let_def inc_deq_loop_step inc_deq_loop_stop)


lemma last_trb_mem_upd_event [simp]:
  "last_trb h (x\<lparr>mem := f\<rparr>) (event_ring x) seg trb = last_trb h x (event_ring x) seg trb"
  by (simp add: last_trb_def)

lemma inc_enq_loop_stop:
  "\<not> last_trb h x ring (enq_seg (rings x ring)) nxt \<Longrightarrow>
   inc_enq_loop h consumer mtc chain ring nxt x = Some x"
  by (subst inc_enq_loop.simps) (simp add: Let_def)

lemma inc_enq_loop_break:
  "last_trb h x ring (enq_seg (rings x ring)) nxt \<Longrightarrow> ring \<noteq> event_ring x \<Longrightarrow>
   chain = 0 \<Longrightarrow> \<not> mtc \<Longrightarrow>
   inc_enq_loop h False mtc chain ring nxt x = Some x"
  by (subst inc_enq_loop.simps) (simp add: Let_def)

lemma inc_enq_loop_step_producer:
  "last_trb h x ring (enq_seg (rings x ring)) nxt \<Longrightarrow> ring \<noteq> event_ring x \<Longrightarrow>
   chain \<noteq> 0 \<or> mtc \<Longrightarrow>
   inc_enq_loop h False mtc chain ring nxt x =
     inc_enq_loop h False mtc chain ring (trbs (segs x (seg_next (segs x (enq_seg (rings x ring))))))
       (x\<lparr>mem := (mem x)(nxt := give_link h (link_trb_quirk x) chain (mem x nxt)),
          rings := (rings x)(ring := (rings x ring)
          \<lparr>cycle_state := (if has_toggle h (give_link h (link_trb_quirk x) chain (mem x nxt))
                            then toggle_cycle (cycle_state (rings x ring)) else cycle_state (rings x ring)),
           enq_seg := seg_next (segs x (enq_seg (rings x ring))),
           enqueue := trbs (segs x (seg_next (segs x (enq_seg (rings x ring)))))\<rparr>)\<rparr>)"
  by (subst inc_enq_loop.simps) (auto simp add: Let_def give_link_def last_trb_on_last_seg_def has_toggle_def link_control_def)

lemma inc_enq_loop_step_consumer:
  "last_trb h x ring (enq_seg (rings x ring)) nxt \<Longrightarrow>
   inc_enq_loop h True mtc chain ring nxt x =
     inc_enq_loop h True mtc chain ring (trbs (segs x (seg_next (segs x (enq_seg (rings x ring))))))
       (x\<lparr>rings := (rings x)(ring := (rings x ring)
          \<lparr>enq_seg := seg_next (segs x (enq_seg (rings x ring))),
           enqueue := trbs (segs x (seg_next (segs x (enq_seg (rings x ring)))))\<rparr>)\<rparr>)"
  by (subst inc_enq_loop.simps) (simp add: Let_def)

lemma has_toggle_give_link:
  assumes "LINK_TOGGLE h AND TRB_CHAIN h = 0" "LINK_TOGGLE h AND TRB_CYCLE h = 0"
  shows "has_toggle h (give_link h q (v AND TRB_CHAIN h) t) = has_toggle h t"
proof -
  have a: "((w AND NOT c OR v AND c) XOR cy) AND tg = w AND tg" if "tg AND c = 0" "tg AND cy = 0"
    for w c cy tg :: u32
    using that by (auto simp: bit_eq_iff bit_simps)
  have b: "(w XOR cy) AND tg = w AND tg" if "tg AND cy = 0" for w cy tg :: u32
    using that by (auto simp: bit_eq_iff bit_simps)
  show ?thesis
  proof (cases q)
    case True
    then show ?thesis using assms(2) by (simp only: has_toggle_def give_link_def link_control_def) (simp add: b)
  next
    case False
    then show ?thesis using assms by (simp only: has_toggle_def give_link_def link_control_def) (simp add: a)
  qed
qed

lemma inc_enq_no_link:
  assumes "\<not> last_trb h x ring (enq_seg (rings x ring)) (enqueue (rings x ring) + 1)"
  shows "inc_enq h ring consumer mtc x =
       Some (x\<lparr>rings := (rings x)(ring := (rings x ring)\<lparr>enqueue := enqueue (rings x ring) + 1,
                 enq_updates := enq_updates (rings x ring) + 1\<rparr>)\<rparr>)"
  using assms by (simp add: inc_enq_def Let_def inc_enq_loop_stop)

lemma inc_enq_deferred:
  assumes "ring \<noteq> event_ring x"
    and "is_link h (mem x (enqueue (rings x ring) + 1))"
    and "field3 (mem x (enqueue (rings x ring))) AND TRB_CHAIN h = 0"
  shows "inc_enq h ring False False x =
       Some (x\<lparr>rings := (rings x)(ring := (rings x ring)\<lparr>enqueue := enqueue (rings x ring) + 1,
                 enq_updates := enq_updates (rings x ring) + 1\<rparr>)\<rparr>)"
  using assms by (simp add: inc_enq_def Let_def inc_enq_loop_break last_trb_not_event)

lemma inc_enq_handover:
  assumes ne: "ring \<noteq> event_ring x"
    and lk: "is_link h (mem x (enqueue (rings x ring) + 1))"
    and go: "field3 (mem x (enqueue (rings x ring))) AND TRB_CHAIN h \<noteq> 0 \<or> mtc"
    and fst: "trbs (segs x (seg_next (segs x (enq_seg (rings x ring))))) \<noteq> enqueue (rings x ring) + 1"
    and nl: "\<not> is_link h (mem x (trbs (segs x (seg_next (segs x (enq_seg (rings x ring)))))))"
  shows "inc_enq h ring False mtc x =
       Some (x\<lparr>mem := (mem x)(enqueue (rings x ring) + 1 :=
                 give_link h (link_trb_quirk x) (field3 (mem x (enqueue (rings x ring))) AND TRB_CHAIN h)
                   (mem x (enqueue (rings x ring) + 1))),
               rings := (rings x)(ring := (rings x ring)
                \<lparr>enq_updates := enq_updates (rings x ring) + 1,
                 cycle_state := (if has_toggle h (give_link h (link_trb_quirk x)
                        (field3 (mem x (enqueue (rings x ring))) AND TRB_CHAIN h) (mem x (enqueue (rings x ring) + 1)))
                                 then toggle_cycle (cycle_state (rings x ring)) else cycle_state (rings x ring)),
                 enq_seg := seg_next (segs x (enq_seg (rings x ring))),
                 enqueue := trbs (segs x (seg_next (segs x (enq_seg (rings x ring)))))\<rparr>)\<rparr>)"
  unfolding inc_enq_def Let_def
  apply (subst inc_enq_loop_step_producer)
  using assms apply (simp_all add: last_trb_not_event split del: if_split)
  apply (subst inc_enq_loop_stop)
   apply (simp_all add: last_trb_not_event split del: if_split cong: if_cong)
  done

lemma inc_deq_event:
  assumes "0 < TRBS_PER_SEGMENT h"
  shows "inc_deq h (event_ring x) consumer x =
     Some (if dequeue (rings x (event_ring x)) + 1 =
              trbs (segs x (deq_seg (rings x (event_ring x)))) + TRBS_PER_SEGMENT h
           then x\<lparr>rings := (rings x)(event_ring x := (rings x (event_ring x))
                  \<lparr>deq_updates := deq_updates (rings x (event_ring x)) + 1,
                   cycle_state := (if consumer \<and> seg_next (segs x (deq_seg (rings x (event_ring x)))) =
                                        first_seg (rings x (event_ring x))
                       then toggle_cycle (cycle_state (rings x (event_ring x)))
                       else cycle_state (rings x (event_ring x))),
                   deq_seg := seg_next (segs x (deq_seg (rings x (event_ring x)))),
                   dequeue := trbs (segs x (seg_next (segs x (deq_seg (rings x (event_ring x))))))\<rparr>)\<rparr>
           else x\<lparr>rings := (rings x)(event_ring x := (rings x (event_ring x))
                  \<lparr>dequeue := dequeue (rings x (event_ring x)) + 1,
                   deq_updates := deq_updates (rings x (event_ring x)) + 1\<rparr>)\<rparr>)"
proof (cases "dequeue (rings x (event_ring x)) + 1 =
              trbs (segs x (deq_seg (rings x (event_ring x)))) + TRBS_PER_SEGMENT h")
  case True
  have l: "last_trb h x (event_ring x) (deq_seg (rings x (event_ring x))) (dequeue (rings x (event_ring x)) + 1)"
    using True by (simp add: last_trb_event)
  have n: "\<not> last_trb h x (event_ring x) (seg_next (segs x (deq_seg (rings x (event_ring x)))))
            (trbs (segs x (seg_next (segs x (deq_seg (rings x (event_ring x)))))))"
    using assms by (simp add: last_trb_event)
  show ?thesis
    using True by (simp add: inc_deq_one_link [OF l n] last_trb_on_last_seg_def cong: if_cong)
next
  case False
  have n: "\<not> last_trb h x (event_ring x) (deq_seg (rings x (event_ring x))) (dequeue (rings x (event_ring x)) + 1)"
    using False by (simp add: last_trb_event)
  show ?thesis using False by (simp add: inc_deq_no_link [OF n])
qed

lemma has_toggle_give_link_late:
  assumes "LINK_TOGGLE h AND TRB_CHAIN h = 0" "LINK_TOGGLE h AND TRB_CYCLE h = 0"
  shows "has_toggle h (give_link_late h q t) = has_toggle h t"
proof -
  have a: "((w AND NOT c) XOR cy) AND tg = w AND tg" if "tg AND c = 0" "tg AND cy = 0"
    for w c cy tg :: u32
    using that by (auto simp: bit_eq_iff bit_simps)
  have b: "((w OR c) XOR cy) AND tg = w AND tg" if "tg AND c = 0" "tg AND cy = 0" for w c cy tg :: u32
    using that by (auto simp: bit_eq_iff bit_simps)
  show ?thesis
  proof (cases q)
    case True
    then show ?thesis using assms by (simp only: has_toggle_def give_link_late_def link_control_def) (simp add: b)
  next
    case False
    then show ?thesis using assms by (simp only: has_toggle_def give_link_late_def link_control_def) (simp add: a)
  qed
qed

lemma prepare_ring_loop_stop:
  "\<not> last_trb h x ring (enq_seg (rings x ring)) nxt \<Longrightarrow> prepare_ring_loop h ring nxt x = Some x"
  by (subst prepare_ring_loop.simps) (simp add: Let_def)

lemma prepare_ring_loop_step:
  "last_trb h x ring (enq_seg (rings x ring)) nxt \<Longrightarrow> ring \<noteq> event_ring x \<Longrightarrow>
   prepare_ring_loop h ring nxt x =
     prepare_ring_loop h ring (trbs (segs x (seg_next (segs x (enq_seg (rings x ring))))))
       (x\<lparr>mem := (mem x)(nxt := give_link_late h (link_trb_quirk x) (mem x nxt)),
          rings := (rings x)(ring := (rings x ring)
          \<lparr>cycle_state := (if has_toggle h (give_link_late h (link_trb_quirk x) (mem x nxt))
                            then toggle_cycle (cycle_state (rings x ring)) else cycle_state (rings x ring)),
           enq_seg := seg_next (segs x (enq_seg (rings x ring))),
           enqueue := trbs (segs x (seg_next (segs x (enq_seg (rings x ring)))))\<rparr>)\<rparr>)"
  by (subst prepare_ring_loop.simps)
     (auto simp add: Let_def give_link_late_def last_trb_on_last_seg_def has_toggle_def link_control_def)

lemma prepare_ring_gives_link:
  assumes ne: "ring \<noteq> event_ring x"
    and st: "st = EP_STATE_RUNNING \<or> st = EP_STATE_HALTED \<or> st = EP_STATE_STOPPED"
    and room: "room_on_ring h x ring n = Some 1"
    and lk: "is_link h (mem x (enqueue (rings x ring)))"
    and fst: "trbs (segs x (seg_next (segs x (enq_seg (rings x ring))))) \<noteq> enqueue (rings x ring)"
    and nl: "\<not> is_link h (mem x (trbs (segs x (seg_next (segs x (enq_seg (rings x ring)))))))"
  shows "prepare_ring h ring st n x =
       Some (Inr (x\<lparr>mem := (mem x)(enqueue (rings x ring) :=
                 give_link_late h (link_trb_quirk x) (mem x (enqueue (rings x ring)))),
               rings := (rings x)(ring := (rings x ring)
                \<lparr>cycle_state := (if has_toggle h (give_link_late h (link_trb_quirk x) (mem x (enqueue (rings x ring))))
                                 then toggle_cycle (cycle_state (rings x ring)) else cycle_state (rings x ring)),
                 enq_seg := seg_next (segs x (enq_seg (rings x ring))),
                 enqueue := trbs (segs x (seg_next (segs x (enq_seg (rings x ring)))))\<rparr>)\<rparr>))"
proof -
  have l: "last_trb h x ring (enq_seg (rings x ring)) (enqueue (rings x ring))"
    using ne lk by (simp add: last_trb_not_event)
  have e: "enqueue_is_link_trb h x ring"
    using lk by (simp add: enqueue_is_link_trb_def is_link_def)
  have p: "prepare_ring h ring st n x =
             map_option Inr (prepare_ring_loop h ring (enqueue (rings x ring)) x)"
    using st room e by (auto simp add: prepare_ring_def)
  show ?thesis
    unfolding p
    apply (subst prepare_ring_loop_step [OF l ne])
    apply (subst prepare_ring_loop_stop)
    using ne fst nl apply (simp_all add: last_trb_not_event split del: if_split cong: if_cong)
    done
qed


lemmas ex_defs = ex_state_a_def ex_state_b_def ex_hcd_def ex_ring_def ex_mem_def ex_segs_def ex_trb_def
  xhci_h_linux_def is_link_def has_toggle_def link_control_def

subsection \<open>C1: advancing a cursor\<close>

text \<open>
  Claim C1, as amended. On a transfer or command ring, \<^verbatim>\<open>inc_deq\<close> moves the dequeue cursor
  one slot; when the new slot is a link TRB (and the first slot of the linked segment is
  not) the cursor goes to the first slot of the linked segment, and \<open>cycle_state\<close> is
  flipped exactly when the caller is the consumer and the link TRB carries the toggle
  flag. \<^verbatim>\<open>inc_enq\<close> moves the enqueue cursor one slot; when the new slot is a link TRB, a
  producer whose last TRB has the chain bit clear and who announces no further TRBs
  stays on the link TRB and changes nothing else, while a producer with the chain bit
  set or more TRBs coming hands the link TRB over, goes to the first slot of the linked
  segment and flips \<open>cycle_state\<close> exactly when the link TRB carries the toggle flag. On
  the event ring \<^verbatim>\<open>inc_deq\<close> always returns; it leaves the segment exactly when the new
  slot is one past its last TRB, and flips \<open>cycle_state\<close> only then, only for the
  consumer and only when the next segment is the first segment of the ring.
\<close>

theorem cursor_advance_link_skip:
  fixes h :: xhci_h and x :: xhci_hcd and ring :: ring_ptr
  defines "r \<equiv> rings x ring"
  defines "ev \<equiv> rings x (event_ring x)"
  defines "chain \<equiv> field3 (mem x (enqueue r)) AND TRB_CHAIN h"
  defines "dnext \<equiv> seg_next (segs x (deq_seg r))"
  defines "enext \<equiv> seg_next (segs x (enq_seg r))"
  assumes ne: "ring \<noteq> event_ring x"
    and tps: "0 < TRBS_PER_SEGMENT h"
    and hdr: "LINK_TOGGLE h AND TRB_CHAIN h = 0" "LINK_TOGGLE h AND TRB_CYCLE h = 0"
  shows
    "(\<not> is_link h (mem x (dequeue r + 1)) \<longrightarrow>
        inc_deq h ring consumer x =
          Some (x\<lparr>rings := (rings x)(ring := r\<lparr>dequeue := dequeue r + 1,
                                               deq_updates := deq_updates r + 1\<rparr>)\<rparr>)) \<and>
     (is_link h (mem x (dequeue r + 1)) \<and> \<not> is_link h (mem x (trbs (segs x dnext))) \<longrightarrow>
        inc_deq h ring consumer x =
          Some (x\<lparr>rings := (rings x)(ring := r
                 \<lparr>deq_updates := deq_updates r + 1,
                  cycle_state := (if consumer \<and> has_toggle h (mem x (dequeue r + 1))
                                  then toggle_cycle (cycle_state r) else cycle_state r),
                  deq_seg := dnext, dequeue := trbs (segs x dnext)\<rparr>)\<rparr>)) \<and>
     (\<not> is_link h (mem x (enqueue r + 1)) \<longrightarrow>
        inc_enq h ring consumer mtc x =
          Some (x\<lparr>rings := (rings x)(ring := r\<lparr>enqueue := enqueue r + 1,
                                               enq_updates := enq_updates r + 1\<rparr>)\<rparr>)) \<and>
     (is_link h (mem x (enqueue r + 1)) \<and> chain = 0 \<longrightarrow>
        inc_enq h ring False False x =
          Some (x\<lparr>rings := (rings x)(ring := r\<lparr>enqueue := enqueue r + 1,
                                               enq_updates := enq_updates r + 1\<rparr>)\<rparr>)) \<and>
     (is_link h (mem x (enqueue r + 1)) \<and> (chain \<noteq> 0 \<or> mtc) \<and>
      trbs (segs x enext) \<noteq> enqueue r + 1 \<and> \<not> is_link h (mem x (trbs (segs x enext))) \<longrightarrow>
        inc_enq h ring False mtc x =
          Some (x\<lparr>mem := (mem x)(enqueue r + 1 :=
                    give_link h (link_trb_quirk x) chain (mem x (enqueue r + 1))),
                  rings := (rings x)(ring := r
                 \<lparr>enq_updates := enq_updates r + 1,
                  cycle_state := (if has_toggle h (mem x (enqueue r + 1))
                                  then toggle_cycle (cycle_state r) else cycle_state r),
                  enq_seg := enext, enqueue := trbs (segs x enext)\<rparr>)\<rparr>)) \<and>
     inc_deq h (event_ring x) consumer x =
       Some (if dequeue ev + 1 = trbs (segs x (deq_seg ev)) + TRBS_PER_SEGMENT h
             then x\<lparr>rings := (rings x)(event_ring x := ev
                    \<lparr>deq_updates := deq_updates ev + 1,
                     cycle_state := (if consumer \<and> seg_next (segs x (deq_seg ev)) = first_seg ev
                                     then toggle_cycle (cycle_state ev) else cycle_state ev),
                     deq_seg := seg_next (segs x (deq_seg ev)),
                     dequeue := trbs (segs x (seg_next (segs x (deq_seg ev))))\<rparr>)\<rparr>
             else x\<lparr>rings := (rings x)(event_ring x := ev
                    \<lparr>dequeue := dequeue ev + 1, deq_updates := deq_updates ev + 1\<rparr>)\<rparr>)"
proof (intro conjI impI)
  assume "\<not> is_link h (mem x (dequeue r + 1))"
  then show "inc_deq h ring consumer x =
          Some (x\<lparr>rings := (rings x)(ring := r\<lparr>dequeue := dequeue r + 1,
                                               deq_updates := deq_updates r + 1\<rparr>)\<rparr>)"
    using ne by (simp add: r_def inc_deq_no_link last_trb_not_event)
next
  assume a: "is_link h (mem x (dequeue r + 1)) \<and> \<not> is_link h (mem x (trbs (segs x dnext)))"
  have l: "last_trb h x ring (deq_seg (rings x ring)) (dequeue (rings x ring) + 1)"
    using a ne by (simp add: r_def last_trb_not_event)
  have n: "\<not> last_trb h x ring (seg_next (segs x (deq_seg (rings x ring))))
            (trbs (segs x (seg_next (segs x (deq_seg (rings x ring))))))"
    using a ne by (simp add: r_def dnext_def last_trb_not_event)
  show "inc_deq h ring consumer x =
          Some (x\<lparr>rings := (rings x)(ring := r
                 \<lparr>deq_updates := deq_updates r + 1,
                  cycle_state := (if consumer \<and> has_toggle h (mem x (dequeue r + 1))
                                  then toggle_cycle (cycle_state r) else cycle_state r),
                  deq_seg := dnext, dequeue := trbs (segs x dnext)\<rparr>)\<rparr>)"
    using ne by (simp add: inc_deq_one_link [OF l n] r_def dnext_def last_seg_not_event cong: if_cong)
next
  assume "\<not> is_link h (mem x (enqueue r + 1))"
  then show "inc_enq h ring consumer mtc x =
          Some (x\<lparr>rings := (rings x)(ring := r\<lparr>enqueue := enqueue r + 1,
                                               enq_updates := enq_updates r + 1\<rparr>)\<rparr>)"
    using ne by (simp add: r_def inc_enq_no_link last_trb_not_event)
next
  assume "is_link h (mem x (enqueue r + 1)) \<and> chain = 0"
  then show "inc_enq h ring False False x =
          Some (x\<lparr>rings := (rings x)(ring := r\<lparr>enqueue := enqueue r + 1,
                                               enq_updates := enq_updates r + 1\<rparr>)\<rparr>)"
    using ne by (simp add: r_def chain_def inc_enq_deferred)
next
  assume a: "is_link h (mem x (enqueue r + 1)) \<and> (chain \<noteq> 0 \<or> mtc) \<and>
      trbs (segs x enext) \<noteq> enqueue r + 1 \<and> \<not> is_link h (mem x (trbs (segs x enext)))"
  have t: "has_toggle h (give_link h (link_trb_quirk x) chain (mem x (enqueue r + 1))) =
           has_toggle h (mem x (enqueue r + 1))"
    unfolding chain_def by (rule has_toggle_give_link [OF hdr])
  have "inc_enq h ring False mtc x =
       Some (x\<lparr>mem := (mem x)(enqueue (rings x ring) + 1 :=
                 give_link h (link_trb_quirk x) (field3 (mem x (enqueue (rings x ring))) AND TRB_CHAIN h)
                   (mem x (enqueue (rings x ring) + 1))),
               rings := (rings x)(ring := (rings x ring)
                \<lparr>enq_updates := enq_updates (rings x ring) + 1,
                 cycle_state := (if has_toggle h (give_link h (link_trb_quirk x)
                        (field3 (mem x (enqueue (rings x ring))) AND TRB_CHAIN h) (mem x (enqueue (rings x ring) + 1)))
                                 then toggle_cycle (cycle_state (rings x ring)) else cycle_state (rings x ring)),
                 enq_seg := seg_next (segs x (enq_seg (rings x ring))),
                 enqueue := trbs (segs x (seg_next (segs x (enq_seg (rings x ring)))))\<rparr>)\<rparr>)"
    using a ne by (intro inc_enq_handover) (auto simp: r_def chain_def enext_def)
  then show "inc_enq h ring False mtc x =
          Some (x\<lparr>mem := (mem x)(enqueue r + 1 :=
                    give_link h (link_trb_quirk x) chain (mem x (enqueue r + 1))),
                  rings := (rings x)(ring := r
                 \<lparr>enq_updates := enq_updates r + 1,
                  cycle_state := (if has_toggle h (mem x (enqueue r + 1))
                                  then toggle_cycle (cycle_state r) else cycle_state r),
                  enq_seg := enext, enqueue := trbs (segs x enext)\<rparr>)\<rparr>)"
    using t by (simp add: r_def chain_def enext_def cong: if_cong)
next
  show "inc_deq h (event_ring x) consumer x =
       Some (if dequeue ev + 1 = trbs (segs x (deq_seg ev)) + TRBS_PER_SEGMENT h
             then x\<lparr>rings := (rings x)(event_ring x := ev
                    \<lparr>deq_updates := deq_updates ev + 1,
                     cycle_state := (if consumer \<and> seg_next (segs x (deq_seg ev)) = first_seg ev
                                     then toggle_cycle (cycle_state ev) else cycle_state ev),
                     deq_seg := seg_next (segs x (deq_seg ev)),
                     dequeue := trbs (segs x (seg_next (segs x (deq_seg ev))))\<rparr>)\<rparr>
             else x\<lparr>rings := (rings x)(event_ring x := ev
                    \<lparr>dequeue := dequeue ev + 1, deq_updates := deq_updates ev + 1\<rparr>)\<rparr>)"
    unfolding ev_def by (rule inc_deq_event [OF tps])
qed


text \<open>
  The theorem at the example controller: the dequeue cursor of the transfer ring crosses
  the link TRB of segment 1 (no toggle flag), the enqueue cursor crosses the link TRB of
  segment 2 (toggle flag, more TRBs coming), the event ring advances one slot.
\<close>

theorem cursor_advance_link_skip_witness:
  "inc_deq xhci_h_linux 1 True ex_state_a \<noteq> None \<and>
   dequeue (rings (the (inc_deq xhci_h_linux 1 True ex_state_a)) 1) = 2000 \<and>
   cycle_state (rings (the (inc_deq xhci_h_linux 1 True ex_state_a)) 1) = 1 \<and>
   inc_enq xhci_h_linux 1 False True ex_state_a \<noteq> None \<and>
   enqueue (rings (the (inc_enq xhci_h_linux 1 False True ex_state_a)) 1) = 1000 \<and>
   cycle_state (rings (the (inc_enq xhci_h_linux 1 False True ex_state_a)) 1) = 0 \<and>
   dequeue (rings (the (inc_deq xhci_h_linux 3 True ex_state_a)) 3) = 3001"
  using cursor_advance_link_skip [where h = xhci_h_linux and x = ex_state_a and ring = 1
      and consumer = True and mtc = True]
  by (simp add: ex_defs toggle_cycle_def)

text \<open>
  C1 as stated fails. A producer advance with the chain bit clear and no more TRBs coming
  stops on the link TRB: the cursor does not jump to the linked segment, and \<open>cycle_state\<close>
  keeps its value although the link TRB carries the toggle flag. A dequeue advance by a
  caller that is not the consumer crosses a link TRB with the toggle flag and leaves
  \<open>cycle_state\<close> as it was.
\<close>

theorem cursor_advance_link_skip_counterexample:
  "is_link xhci_h_linux (mem ex_state_a (enqueue (rings ex_state_a 1) + 1)) \<and>
   has_toggle xhci_h_linux (mem ex_state_a (enqueue (rings ex_state_a 1) + 1)) \<and>
   inc_enq xhci_h_linux 1 False False ex_state_a \<noteq> None \<and>
   enqueue (rings (the (inc_enq xhci_h_linux 1 False False ex_state_a)) 1) = enqueue (rings ex_state_a 1) + 1 \<and>
   enqueue (rings (the (inc_enq xhci_h_linux 1 False False ex_state_a)) 1) \<noteq>
     trbs (segs ex_state_a (seg_next (segs ex_state_a (enq_seg (rings ex_state_a 1))))) \<and>
   cycle_state (rings (the (inc_enq xhci_h_linux 1 False False ex_state_a)) 1) = cycle_state (rings ex_state_a 1) \<and>
   is_link xhci_h_linux (mem ex_state_b (dequeue (rings ex_state_b 1) + 1)) \<and>
   has_toggle xhci_h_linux (mem ex_state_b (dequeue (rings ex_state_b 1) + 1)) \<and>
   inc_deq xhci_h_linux 1 False ex_state_b \<noteq> None \<and>
   dequeue (rings (the (inc_deq xhci_h_linux 1 False ex_state_b)) 1) = 1000 \<and>
   cycle_state (rings (the (inc_deq xhci_h_linux 1 False ex_state_b)) 1) = cycle_state (rings ex_state_b 1)"
proof -
  have a: "inc_enq xhci_h_linux 1 False False ex_state_a =
       Some (ex_state_a\<lparr>rings := (rings ex_state_a)(1 := (rings ex_state_a 1)\<lparr>enqueue := enqueue (rings ex_state_a 1) + 1,
                 enq_updates := enq_updates (rings ex_state_a 1) + 1\<rparr>)\<rparr>)"
    by (rule inc_enq_deferred) (simp_all add: ex_defs)
  have b: "inc_deq xhci_h_linux 1 False ex_state_b =
       Some (ex_state_b\<lparr>rings := (rings ex_state_b)(1 := (rings ex_state_b 1)
          \<lparr>deq_updates := deq_updates (rings ex_state_b 1) + 1,
           cycle_state := (if False \<and> last_trb_on_last_seg xhci_h_linux ex_state_b 1 (deq_seg (rings ex_state_b 1)) (dequeue (rings ex_state_b 1) + 1)
                            then toggle_cycle (cycle_state (rings ex_state_b 1)) else cycle_state (rings ex_state_b 1)),
           deq_seg := seg_next (segs ex_state_b (deq_seg (rings ex_state_b 1))),
           dequeue := trbs (segs ex_state_b (seg_next (segs ex_state_b (deq_seg (rings ex_state_b 1)))))\<rparr>)\<rparr>)"
    by (rule inc_deq_one_link) (simp_all add: ex_defs last_trb_def)
  show ?thesis
    unfolding a b by (simp add: ex_defs)
qed

subsection \<open>C2: when a link TRB is handed to the hardware\<close>

lemma cycle_bit_give_link:
  assumes "TRB_CYCLE h AND TRB_CHAIN h = 0"
  shows "field3 (give_link h q (v AND TRB_CHAIN h) t) AND TRB_CYCLE h =
         (field3 t AND TRB_CYCLE h) XOR TRB_CYCLE h"
proof -
  have a: "((w AND NOT c OR v AND c) XOR cy) AND cy = (w AND cy) XOR cy" if "cy AND c = 0"
    for w c cy :: u32
    using that by (auto simp: bit_eq_iff bit_simps)
  have b: "(w XOR cy) AND cy = (w AND cy) XOR cy" for w cy :: u32
    by (auto simp: bit_eq_iff bit_simps)
  show ?thesis
  proof (cases q)
    case True
    then show ?thesis using b [of "field3 t" "TRB_CYCLE h"] by (simp add: give_link_def)
  next
    case False
    then show ?thesis using a [OF assms, of "field3 t"] by (simp add: give_link_def)
  qed
qed

lemma cycle_bit_give_link_late:
  assumes "TRB_CYCLE h AND TRB_CHAIN h = 0"
  shows "field3 (give_link_late h q t) AND TRB_CYCLE h = (field3 t AND TRB_CYCLE h) XOR TRB_CYCLE h"
proof -
  have a: "((w AND NOT c) XOR cy) AND cy = (w AND cy) XOR cy" if "cy AND c = 0"
    for w c cy :: u32
    using that by (auto simp: bit_eq_iff bit_simps)
  have b: "((w OR c) XOR cy) AND cy = (w AND cy) XOR cy" if "cy AND c = 0" for w c cy :: u32
    using that by (auto simp: bit_eq_iff bit_simps)
  show ?thesis
  proof (cases q)
    case True
    then show ?thesis using b [OF assms, of "field3 t"] by (simp add: give_link_late_def)
  next
    case False
    then show ?thesis using a [OF assms, of "field3 t"] by (simp add: give_link_late_def)
  qed
qed

text \<open>
  Claim C2, as amended. Let a producer advance on a transfer or command ring land on a
  link TRB (whose linked segment starts with a TRB that is not a link TRB). If the TRB
  just enqueued has its chain bit clear and the caller passes \<^verbatim>\<open>more_trbs_coming = false\<close>,
  \<^verbatim>\<open>inc_enq\<close> leaves the link TRB as it is and the enqueue cursor on it; the next
  \<^verbatim>\<open>prepare_ring\<close> that finds room then hands the link TRB over and moves the cursor to the
  linked segment. If the chain bit is set or more TRBs are coming, \<^verbatim>\<open>inc_enq\<close> itself hands
  the link TRB over at once. Handing over flips the cycle bit of the link TRB.
\<close>

theorem link_trb_handover:
  fixes h :: xhci_h and x :: xhci_hcd and ring :: ring_ptr
  defines "r \<equiv> rings x ring"
  defines "chain \<equiv> field3 (mem x (enqueue r)) AND TRB_CHAIN h"
  defines "lnk \<equiv> enqueue r + 1"
  defines "enext \<equiv> seg_next (segs x (enq_seg r))"
  defines "x' \<equiv> x\<lparr>rings := (rings x)(ring := r\<lparr>enqueue := lnk, enq_updates := enq_updates r + 1\<rparr>)\<rparr>"
  assumes ne: "ring \<noteq> event_ring x"
    and lk: "is_link h (mem x lnk)"
    and fst: "trbs (segs x enext) \<noteq> lnk"
    and nl: "\<not> is_link h (mem x (trbs (segs x enext)))"
    and hdr: "TRB_CYCLE h AND TRB_CHAIN h = 0"
  shows
    "(chain = 0 \<longrightarrow>
        inc_enq h ring False False x = Some x' \<and> mem x' lnk = mem x lnk \<and> enqueue (rings x' ring) = lnk) \<and>
     (chain = 0 \<and> (st = EP_STATE_RUNNING \<or> st = EP_STATE_HALTED \<or> st = EP_STATE_STOPPED) \<and>
      room_on_ring h x' ring n = Some 1 \<longrightarrow>
        (\<exists>y. prepare_ring h ring st n x' = Some (Inr y) \<and>
              mem y lnk = give_link_late h (link_trb_quirk x) (mem x lnk) \<and>
              enqueue (rings y ring) = trbs (segs x enext))) \<and>
     (chain \<noteq> 0 \<or> mtc \<longrightarrow>
        (\<exists>y. inc_enq h ring False mtc x = Some y \<and>
              mem y lnk = give_link h (link_trb_quirk x) chain (mem x lnk) \<and>
              enqueue (rings y ring) = trbs (segs x enext))) \<and>
     field3 (give_link h (link_trb_quirk x) chain (mem x lnk)) AND TRB_CYCLE h =
       (field3 (mem x lnk) AND TRB_CYCLE h) XOR TRB_CYCLE h \<and>
     field3 (give_link_late h (link_trb_quirk x) (mem x lnk)) AND TRB_CYCLE h =
       (field3 (mem x lnk) AND TRB_CYCLE h) XOR TRB_CYCLE h"
proof (intro conjI impI)
  assume c: "chain = 0"
  show "inc_enq h ring False False x = Some x'"
    using ne lk c unfolding x'_def r_def chain_def lnk_def by (intro inc_enq_deferred) simp_all
  show "mem x' lnk = mem x lnk" by (simp add: x'_def)
  show "enqueue (rings x' ring) = lnk" by (simp add: x'_def)
next
  assume a: "chain = 0 \<and> (st = EP_STATE_RUNNING \<or> st = EP_STATE_HALTED \<or> st = EP_STATE_STOPPED) \<and>
      room_on_ring h x' ring n = Some 1"
  have ne': "ring \<noteq> event_ring x'" using ne by (simp add: x'_def)
  have lk': "is_link h (mem x' (enqueue (rings x' ring)))" using lk by (simp add: x'_def)
  have fst': "trbs (segs x' (seg_next (segs x' (enq_seg (rings x' ring))))) \<noteq> enqueue (rings x' ring)"
    using fst by (simp add: x'_def enext_def r_def)
  have nl': "\<not> is_link h (mem x' (trbs (segs x' (seg_next (segs x' (enq_seg (rings x' ring)))))))"
    using nl by (simp add: x'_def enext_def r_def)
  from a have st: "st = EP_STATE_RUNNING \<or> st = EP_STATE_HALTED \<or> st = EP_STATE_STOPPED"
    and room: "room_on_ring h x' ring n = Some 1" by simp_all
  show "\<exists>y. prepare_ring h ring st n x' = Some (Inr y) \<and>
              mem y lnk = give_link_late h (link_trb_quirk x) (mem x lnk) \<and>
              enqueue (rings y ring) = trbs (segs x enext)"
    unfolding prepare_ring_gives_link [OF ne' st room lk' fst' nl']
    by (simp add: x'_def enext_def r_def)
next
  assume a: "chain \<noteq> 0 \<or> mtc"
  have go: "field3 (mem x (enqueue (rings x ring))) AND TRB_CHAIN h \<noteq> 0 \<or> mtc"
    using a by (simp add: chain_def r_def)
  have lk0: "is_link h (mem x (enqueue (rings x ring) + 1))" using lk by (simp add: lnk_def r_def)
  have fst0: "trbs (segs x (seg_next (segs x (enq_seg (rings x ring))))) \<noteq> enqueue (rings x ring) + 1"
    using fst by (simp add: lnk_def r_def enext_def)
  have nl0: "\<not> is_link h (mem x (trbs (segs x (seg_next (segs x (enq_seg (rings x ring)))))))"
    using nl by (simp add: r_def enext_def)
  show "\<exists>y. inc_enq h ring False mtc x = Some y \<and>
              mem y lnk = give_link h (link_trb_quirk x) chain (mem x lnk) \<and>
              enqueue (rings y ring) = trbs (segs x enext)"
    unfolding inc_enq_handover [OF ne lk0 go fst0 nl0]
    by (simp add: lnk_def r_def enext_def chain_def)
next
  show "field3 (give_link h (link_trb_quirk x) chain (mem x lnk)) AND TRB_CYCLE h =
       (field3 (mem x lnk) AND TRB_CYCLE h) XOR TRB_CYCLE h"
    unfolding chain_def by (rule cycle_bit_give_link [OF hdr])
next
  show "field3 (give_link_late h (link_trb_quirk x) (mem x lnk)) AND TRB_CYCLE h =
       (field3 (mem x lnk) AND TRB_CYCLE h) XOR TRB_CYCLE h"
    by (rule cycle_bit_give_link_late [OF hdr])
qed

text \<open>
  The theorem at the example controller, whose enqueue cursor is one slot before the link
  TRB of segment 2 (control word \<open>0x1802\<close>, cycle bit clear).
\<close>

theorem link_trb_handover_witness:
  "inc_enq xhci_h_linux 1 False False ex_state_a \<noteq> None \<and>
   field3 (mem (the (inc_enq xhci_h_linux 1 False False ex_state_a)) 2063) = 0x1802 \<and>
   enqueue (rings (the (inc_enq xhci_h_linux 1 False False ex_state_a)) 1) = 2063 \<and>
   (\<exists>y. prepare_ring xhci_h_linux 1 EP_STATE_RUNNING 1 (the (inc_enq xhci_h_linux 1 False False ex_state_a)) = Some (Inr y) \<and>
        field3 (mem y 2063) = 0x1803 \<and> enqueue (rings y 1) = 1000) \<and>
   (\<exists>y. inc_enq xhci_h_linux 1 False True ex_state_a = Some y \<and>
        field3 (mem y 2063) = 0x1803 \<and> enqueue (rings y 1) = 1000)"
proof -
  let ?x' = "ex_state_a\<lparr>rings := (rings ex_state_a)(1 := (rings ex_state_a 1)
          \<lparr>enqueue := enqueue (rings ex_state_a 1) + 1,
           enq_updates := enq_updates (rings ex_state_a 1) + 1\<rparr>)\<rparr>"
  have room: "room_on_ring xhci_h_linux ?x' 1 1 = Some 1"
    by (simp add: room_on_ring_def room_skip_links.simps room_walk.simps ex_defs last_trb_def word_le_nat_alt)
  have pre: "(1::nat) \<noteq> event_ring ex_state_a"
    "is_link xhci_h_linux (mem ex_state_a (enqueue (rings ex_state_a 1) + 1))"
    "trbs (segs ex_state_a (seg_next (segs ex_state_a (enq_seg (rings ex_state_a 1))))) \<noteq> enqueue (rings ex_state_a 1) + 1"
    "\<not> is_link xhci_h_linux (mem ex_state_a (trbs (segs ex_state_a (seg_next (segs ex_state_a (enq_seg (rings ex_state_a 1)))))))"
    "TRB_CYCLE xhci_h_linux AND TRB_CHAIN xhci_h_linux = 0"
    "field3 (mem ex_state_a (enqueue (rings ex_state_a 1))) AND TRB_CHAIN xhci_h_linux = 0"
    by (simp_all add: ex_defs)
  note T = link_trb_handover [where h = xhci_h_linux and x = ex_state_a and ring = 1
      and mtc = True and st = EP_STATE_RUNNING and n = 1, OF pre(1-5)]
  from T pre(6) have a: "inc_enq xhci_h_linux 1 False False ex_state_a = Some ?x'" by blast
  from T pre(6) room obtain y where
    y: "prepare_ring xhci_h_linux 1 EP_STATE_RUNNING 1 ?x' = Some (Inr y)"
       "mem y (enqueue (rings ex_state_a 1) + 1) =
          give_link_late xhci_h_linux (link_trb_quirk ex_state_a) (mem ex_state_a (enqueue (rings ex_state_a 1) + 1))"
       "enqueue (rings y 1) = trbs (segs ex_state_a (seg_next (segs ex_state_a (enq_seg (rings ex_state_a 1)))))"
    by blast
  from T obtain z where
    z: "inc_enq xhci_h_linux 1 False True ex_state_a = Some z"
       "mem z (enqueue (rings ex_state_a 1) + 1) =
          give_link xhci_h_linux (link_trb_quirk ex_state_a)
            (field3 (mem ex_state_a (enqueue (rings ex_state_a 1))) AND TRB_CHAIN xhci_h_linux)
            (mem ex_state_a (enqueue (rings ex_state_a 1) + 1))"
       "enqueue (rings z 1) = trbs (segs ex_state_a (seg_next (segs ex_state_a (enq_seg (rings ex_state_a 1)))))"
    by blast
  have e: "enqueue (rings ex_state_a 1) + 1 = 2063" by (simp add: ex_defs)
  have y2: "field3 (mem y 2063) = 0x1803" using y(2) unfolding e by (simp add: ex_defs give_link_late_def)
  have y3: "enqueue (rings y 1) = 1000" using y(3) by (simp add: ex_defs)
  have z2: "field3 (mem z 2063) = 0x1803" using z(2) unfolding e by (simp add: ex_defs give_link_def)
  have z3: "enqueue (rings z 1) = 1000" using z(3) by (simp add: ex_defs)
  have a2: "field3 (mem ?x' 2063) = 0x1802" "enqueue (rings ?x' 1) = 2063" by (simp_all add: ex_defs)
  show ?thesis
    unfolding a option.sel using y(1) y2 y3 z(1) z2 z3 a2 by blast
qed

text \<open>
  C2 as stated fails: with \<^verbatim>\<open>more_trbs_coming = true\<close> the cycle bit of the link TRB is
  flipped by \<^verbatim>\<open>inc_enq\<close> itself, before the caller has said that no more TRBs are coming.
\<close>

theorem link_trb_handover_counterexample:
  "is_link xhci_h_linux (mem ex_state_a (enqueue (rings ex_state_a 1) + 1)) \<and>
   field3 (mem ex_state_a (enqueue (rings ex_state_a 1) + 1)) AND TRB_CYCLE xhci_h_linux = 0 \<and>
   inc_enq xhci_h_linux 1 False True ex_state_a \<noteq> None \<and>
   field3 (mem (the (inc_enq xhci_h_linux 1 False True ex_state_a)) (enqueue (rings ex_state_a 1) + 1))
      AND TRB_CYCLE xhci_h_linux = 1"
proof -
  have a: "inc_enq xhci_h_linux 1 False True ex_state_a =
       Some (ex_state_a\<lparr>mem := (mem ex_state_a)(enqueue (rings ex_state_a 1) + 1 :=
                 give_link xhci_h_linux (link_trb_quirk ex_state_a) (field3 (mem ex_state_a (enqueue (rings ex_state_a 1))) AND TRB_CHAIN xhci_h_linux)
                   (mem ex_state_a (enqueue (rings ex_state_a 1) + 1))),
               rings := (rings ex_state_a)(1 := (rings ex_state_a 1)
                \<lparr>enq_updates := enq_updates (rings ex_state_a 1) + 1,
                 cycle_state := (if has_toggle xhci_h_linux (give_link xhci_h_linux (link_trb_quirk ex_state_a)
                        (field3 (mem ex_state_a (enqueue (rings ex_state_a 1))) AND TRB_CHAIN xhci_h_linux) (mem ex_state_a (enqueue (rings ex_state_a 1) + 1)))
                                 then toggle_cycle (cycle_state (rings ex_state_a 1)) else cycle_state (rings ex_state_a 1)),
                 enq_seg := seg_next (segs ex_state_a (enq_seg (rings ex_state_a 1))),
                 enqueue := trbs (segs ex_state_a (seg_next (segs ex_state_a (enq_seg (rings ex_state_a 1)))))\<rparr>)\<rparr>)"
    by (rule inc_enq_handover) (simp_all add: ex_defs)
  show ?thesis
    unfolding a by (simp add: ex_defs give_link_def)
qed

subsection \<open>C9: the endpoint state on submission\<close>

lemma room_ex_state_a: "room_on_ring xhci_h_linux ex_state_a 1 1 = Some 1"
  by (simp add: room_on_ring_def room_skip_links.simps room_walk.simps ex_defs last_trb_def word_le_nat_alt)

text \<open>
  Claim C9, as amended. \<^verbatim>\<open>prepare_ring\<close>, which every submission calls first, rejects the
  submission when the endpoint context is in the disabled state (\<^verbatim>\<open>-ENOENT\<close>) or in the
  error state or an unknown state (\<^verbatim>\<open>-EINVAL\<close>); for a halted or a stopped endpoint it does
  exactly what it does for a running one. \<^verbatim>\<open>ring_ep_doorbell\<close> (and \<^verbatim>\<open>giveback_first_trb\<close>,
  which ends every submission with it) writes no doorbell while \<^verbatim>\<open>EP_HALT_PENDING\<close>,
  \<^verbatim>\<open>SET_DEQ_PENDING\<close> or \<^verbatim>\<open>EP_HALTED\<close> is set in the endpoint state, and writes the doorbell
  of the slot once when none of them is set.
\<close>

theorem endpoint_state_gate:
  "prepare_ring h ring EP_STATE_DISABLED n x = Some (Inl ENOENT) \<and>
   prepare_ring h ring EP_STATE_ERROR n x = Some (Inl EINVAL) \<and>
   prepare_ring h ring (EP_STATE_OTHER v) n x = Some (Inl EINVAL) \<and>
   prepare_ring h ring EP_STATE_HALTED n x = prepare_ring h ring EP_STATE_RUNNING n x \<and>
   prepare_ring h ring EP_STATE_STOPPED n x = prepare_ring h ring EP_STATE_RUNNING n x \<and>
   (devs x slot_id = Some dev \<and>
    (ep_state (eps dev ep_index) AND EP_HALT_PENDING h \<noteq> 0 \<or>
     ep_state (eps dev ep_index) AND SET_DEQ_PENDING h \<noteq> 0 \<or>
     ep_state (eps dev ep_index) AND EP_HALTED h \<noteq> 0) \<longrightarrow>
      ring_ep_doorbell h slot_id ep_index stream_id x = Some x \<and>
      giveback_first_trb h slot_id ep_index stream_id start_cycle start_trb x \<noteq> None \<and>
      doorbell_writes (the (giveback_first_trb h slot_id ep_index stream_id start_cycle start_trb x)) =
        doorbell_writes x) \<and>
   (devs x slot_id = Some dev \<and>
    ep_state (eps dev ep_index) AND EP_HALT_PENDING h = 0 \<and>
    ep_state (eps dev ep_index) AND SET_DEQ_PENDING h = 0 \<and>
    ep_state (eps dev ep_index) AND EP_HALTED h = 0 \<longrightarrow>
      ring_ep_doorbell h slot_id ep_index stream_id x =
        Some (x\<lparr>doorbell_writes := doorbell_writes x @
           [(slot_id, (doorbell x slot_id AND DB_MASK h) OR EPI_TO_DB h ep_index OR STREAM_ID_TO_DB h stream_id)]\<rparr>))"
  by (auto simp add: prepare_ring_def ring_ep_doorbell_def giveback_first_trb_def Let_def)

text \<open>The theorem at the halted endpoint (no doorbell write) and at a running one.\<close>

theorem endpoint_state_gate_witness:
  "ring_ep_doorbell xhci_h_linux 1 0 0 ex_state_halted = Some ex_state_halted \<and>
   ring_ep_doorbell xhci_h_linux 1 0 0 ex_state_a =
     Some (ex_state_a\<lparr>doorbell_writes := [(1, 1)]\<rparr>)"
  using endpoint_state_gate [where h = xhci_h_linux and x = ex_state_halted and slot_id = 1
      and ep_index = 0 and stream_id = 0
      and dev = "\<lparr>eps = (\<lambda>i. ex_ep 2), out_ctx_ep_state = (\<lambda>i. EP_STATE_HALTED)\<rparr>"]
    endpoint_state_gate [where h = xhci_h_linux and x = ex_state_a and slot_id = 1
      and ep_index = 0 and stream_id = 0
      and dev = "\<lparr>eps = (\<lambda>i. ex_ep 0), out_ctx_ep_state = (\<lambda>i. EP_STATE_RUNNING)\<rparr>"]
  by (simp add: ex_defs ex_state_halted_def ex_ep_def)

text \<open>
  C9 as stated fails: for an endpoint in the halted state \<^verbatim>\<open>prepare_ring\<close> does not fail
  with an error; it returns 0, so the caller goes on to enqueue its TRBs.
\<close>

theorem endpoint_state_gate_counterexample:
  "out_ctx_ep_state (the (devs ex_state_halted 1)) 0 = EP_STATE_HALTED \<and>
   prepare_ring xhci_h_linux 1 (out_ctx_ep_state (the (devs ex_state_halted 1)) 0) 1 ex_state_halted
     = Some (Inr ex_state_halted)"
proof -
  have "room_on_ring xhci_h_linux ex_state_halted 1 1 = Some 1"
    by (simp add: room_on_ring_def room_skip_links.simps room_walk.simps ex_defs ex_state_halted_def last_trb_def word_le_nat_alt)
  then show ?thesis
    by (simp add: prepare_ring_def enqueue_is_link_trb_def ex_defs ex_state_halted_def)
qed

subsection \<open>C7: command completion events\<close>

lemma clear_ep_flag_frame:
  "clear_ep_flag s e f x = Some y \<Longrightarrow>
   rings y = rings x \<and> mem y = mem x \<and> segs y = segs x \<and> cmd_ring y = cmd_ring x \<and>
   event_ring y = event_ring x"
  by (auto simp: clear_ep_flag_def Let_def split: option.splits if_splits)

lemma cmd_switch_frame:
  assumes "cmd_completion_switch h ev x = Some (b, x1)"
  shows "rings x1 = rings x \<and> mem x1 = mem x \<and> segs x1 = segs x \<and> cmd_ring x1 = cmd_ring x \<and>
         event_ring x1 = event_ring x"
  using assms
  unfolding cmd_completion_switch_def Let_def
  by (auto split: if_splits dest!: clear_ep_flag_frame)

lemma cmd_switch_returned:
  assumes "cmd_completion_switch h ev x = Some (True, x1)"
  shows "x1 = x\<lparr>g_cmd_status := CMD_DONE\<rparr> \<and>
         \<not> handled_cmd_type h (field3 (mem x (dequeue (rings x (cmd_ring x)))) AND TRB_TYPE_BITMASK h) \<and>
         GET_COMP_CODE h (event_status ev) = COMP_CMD_STOP h"
  using assms
  unfolding cmd_completion_switch_def Let_def handled_cmd_type_def
  by (auto split: if_splits)

lemma cmd_switch_unhandled:
  assumes "\<not> handled_cmd_type h (field3 (mem x (dequeue (rings x (cmd_ring x)))) AND TRB_TYPE_BITMASK h)"
  shows "cmd_completion_switch h ev x =
     (if GET_COMP_CODE h (event_status ev) = COMP_CMD_STOP h
      then Some (True, x\<lparr>g_cmd_status := CMD_DONE\<rparr>)
      else Some (False, x\<lparr>error_bitmask := error_bitmask x OR push_bit 6 1, g_cmd_status := CMD_FAIL\<rparr>))"
  using assms
  unfolding cmd_completion_switch_def Let_def handled_cmd_type_def
  by simp


text \<open>
  Claim C7, as amended. When the dequeue pointer of the command ring does not resolve to
  a DMA address, or the event's command-TRB address differs from it, the handler sets the
  error bit (4 or 5) and returns with the command ring untouched. When they match, the
  \<^verbatim>\<open>switch\<close> records the status in the globals and the endpoint state, leaving rings and
  TRB memory alone, and \<^verbatim>\<open>inc_deq\<close> is then called once on the command ring, which moves
  the dequeue pointer one slot when the next slot is not a link TRB. The exception: when the
  command TRB is of none of the handled types and the completion code is
  \<^verbatim>\<open>COMP_CMD_STOP\<close>, the handler sets \<^verbatim>\<open>g_cmd_status\<close> to done and returns without advancing.

  What is recorded, by the type of the command TRB (the case labels being distinct, as
  they are in a C \<^verbatim>\<open>switch\<close>), before the one call of \<^verbatim>\<open>inc_deq\<close>:
  No-Op: nothing.
  Enable Slot: on success the slot ID of the event in \<^verbatim>\<open>g_slot_id\<close> and done, otherwise slot 0
  and failed.
  Disable Slot: on success the slot ID and done, otherwise nothing.
  Address Device: done on success and on \<^verbatim>\<open>COMP_CMD_ABORT\<close>, otherwise failed.
  Configure Endpoint, Reset Device, Stop Ring, Evaluate Context: done on success, otherwise
  failed.
  Set TR Dequeue: on success \<^verbatim>\<open>SET_DEQ_PENDING\<close> is cleared in the state of the endpoint that
  the command TRB names and the status is done; otherwise failed.
  Reset Endpoint: \<^verbatim>\<open>EP_HALTED\<close> is cleared in the state of that endpoint and the status is
  done, whatever the completion code.
  Any other type, with a completion code other than \<^verbatim>\<open>COMP_CMD_STOP\<close>: error bit 6 and
  failed.
  The two cases that write the endpoint state are stated for a slot that has a device and
  an endpoint ID from 1 to 31 in the command TRB.
\<close>

theorem cmd_completion_dispatch:
  fixes h :: xhci_h and x :: xhci_hcd and ev :: xhci_generic_trb and dev :: xhci_virt_device
  defines "cr \<equiv> rings x (cmd_ring x)"
  defines "deq_dma \<equiv> xhci_trb_virt_to_dma h x (deq_seg cr) (dequeue cr)"
  defines "ty \<equiv> field3 (mem x (dequeue cr)) AND TRB_TYPE_BITMASK h"
  defines "code \<equiv> GET_COMP_CODE h (event_status ev)"
  defines "slot_id \<equiv> TRB_TO_SLOT_ID h (event_flags ev)"
  defines "ep_index \<equiv> unat (TRB_TO_EP_INDEX h (field3 (mem x (dequeue cr))))"
  defines "ok \<equiv> (code = COMP_SUCCESS h)"
  defines "status \<equiv> (\<lambda>b. if b then CMD_DONE else CMD_FAIL)"
  defines "advance \<equiv> inc_deq h (cmd_ring x) False"
  defines "clear \<equiv> (\<lambda>flag. x\<lparr>devs := (devs x)(slot_id := Some (dev\<lparr>eps := (eps dev)(ep_index :=
                       (eps dev ep_index)\<lparr>ep_state := ep_state (eps dev ep_index) AND NOT flag\<rparr>)\<rparr>))\<rparr>)"
  shows
  "(deq_dma = 0 \<longrightarrow>
      handle_cmd_completion h ev x = Some (x\<lparr>error_bitmask := error_bitmask x OR push_bit 4 1\<rparr>)) \<and>
   (deq_dma \<noteq> 0 \<and> event_cmd_trb ev \<noteq> deq_dma \<longrightarrow>
      handle_cmd_completion h ev x = Some (x\<lparr>error_bitmask := error_bitmask x OR push_bit 5 1\<rparr>)) \<and>
   (deq_dma \<noteq> 0 \<and> event_cmd_trb ev = deq_dma \<and> \<not> handled_cmd_type h ty \<and> code = COMP_CMD_STOP h \<longrightarrow>
      handle_cmd_completion h ev x = Some (x\<lparr>g_cmd_status := CMD_DONE\<rparr>)) \<and>
   (deq_dma \<noteq> 0 \<and> event_cmd_trb ev = deq_dma \<and> (handled_cmd_type h ty \<or> code \<noteq> COMP_CMD_STOP h) \<and>
    cmd_completion_switch h ev x \<noteq> None \<longrightarrow>
      (\<exists>x1. cmd_completion_switch h ev x = Some (False, x1) \<and>
            rings x1 = rings x \<and> mem x1 = mem x \<and> segs x1 = segs x \<and>
            handle_cmd_completion h ev x = inc_deq h (cmd_ring x) False x1 \<and>
            (cmd_ring x \<noteq> event_ring x \<and> \<not> is_link h (mem x (dequeue cr + 1)) \<longrightarrow>
               handle_cmd_completion h ev x =
                 Some (x1\<lparr>rings := (rings x)(cmd_ring x :=
                    cr\<lparr>dequeue := dequeue cr + 1, deq_updates := deq_updates cr + 1\<rparr>)\<rparr>)))) \<and>
   (deq_dma \<noteq> 0 \<and> event_cmd_trb ev = deq_dma \<and> distinct (cmd_case_labels h) \<longrightarrow>
      (ty = TRB_TYPE h (TRB_CMD_NOOP h) \<longrightarrow> handle_cmd_completion h ev x = advance x) \<and>
      (ty = TRB_TYPE h (TRB_ENABLE_SLOT h) \<longrightarrow>
         handle_cmd_completion h ev x =
           advance (x\<lparr>g_slot_id := (if ok then slot_id else 0), g_cmd_status := status ok\<rparr>)) \<and>
      (ty = TRB_TYPE h (TRB_DISABLE_SLOT h) \<longrightarrow>
         handle_cmd_completion h ev x =
           advance (if ok then x\<lparr>g_slot_id := slot_id, g_cmd_status := CMD_DONE\<rparr> else x)) \<and>
      (ty = TRB_TYPE h (TRB_ADDR_DEV h) \<longrightarrow>
         handle_cmd_completion h ev x =
           advance (x\<lparr>g_cmd_status := status (ok \<or> code = COMP_CMD_ABORT h)\<rparr>)) \<and>
      (ty = TRB_TYPE h (TRB_CONFIG_EP h) \<or> ty = TRB_TYPE h (TRB_RESET_DEV h) \<or>
       ty = TRB_TYPE h (TRB_STOP_RING h) \<or> ty = TRB_TYPE h (TRB_EVAL_CONTEXT h) \<longrightarrow>
         handle_cmd_completion h ev x = advance (x\<lparr>g_cmd_status := status ok\<rparr>)) \<and>
      (ty = TRB_TYPE h (TRB_SET_DEQ h) \<and> \<not> ok \<longrightarrow>
         handle_cmd_completion h ev x = advance (x\<lparr>g_cmd_status := CMD_FAIL\<rparr>)) \<and>
      (ty = TRB_TYPE h (TRB_SET_DEQ h) \<and> ok \<and> devs x slot_id = Some dev \<and> ep_index < 31 \<longrightarrow>
         handle_cmd_completion h ev x = advance ((clear (SET_DEQ_PENDING h))\<lparr>g_cmd_status := CMD_DONE\<rparr>)) \<and>
      (ty = TRB_TYPE h (TRB_RESET_EP h) \<and> devs x slot_id = Some dev \<and> ep_index < 31 \<longrightarrow>
         handle_cmd_completion h ev x = advance ((clear (EP_HALTED h))\<lparr>g_cmd_status := CMD_DONE\<rparr>)) \<and>
      (\<not> handled_cmd_type h ty \<and> code \<noteq> COMP_CMD_STOP h \<longrightarrow>
         handle_cmd_completion h ev x =
           advance (x\<lparr>error_bitmask := error_bitmask x OR push_bit 6 1, g_cmd_status := CMD_FAIL\<rparr>)))"
proof (intro conjI impI)
  assume "deq_dma = 0"
  then show "handle_cmd_completion h ev x = Some (x\<lparr>error_bitmask := error_bitmask x OR push_bit 4 1\<rparr>)"
    by (simp add: handle_cmd_completion_def deq_dma_def cr_def Let_def)
next
  assume "deq_dma \<noteq> 0 \<and> event_cmd_trb ev \<noteq> deq_dma"
  then show "handle_cmd_completion h ev x = Some (x\<lparr>error_bitmask := error_bitmask x OR push_bit 5 1\<rparr>)"
    by (simp add: handle_cmd_completion_def deq_dma_def cr_def Let_def)
next
  assume a: "deq_dma \<noteq> 0 \<and> event_cmd_trb ev = deq_dma \<and> \<not> handled_cmd_type h ty \<and> code = COMP_CMD_STOP h"
  then have "cmd_completion_switch h ev x = Some (True, x\<lparr>g_cmd_status := CMD_DONE\<rparr>)"
    by (simp add: cmd_switch_unhandled ty_def cr_def code_def)
  with a show "handle_cmd_completion h ev x = Some (x\<lparr>g_cmd_status := CMD_DONE\<rparr>)"
    by (simp add: handle_cmd_completion_def deq_dma_def cr_def Let_def)
next
  assume a: "deq_dma \<noteq> 0 \<and> event_cmd_trb ev = deq_dma \<and> (handled_cmd_type h ty \<or> code \<noteq> COMP_CMD_STOP h) \<and>
    cmd_completion_switch h ev x \<noteq> None"
  then obtain b x1 where sw: "cmd_completion_switch h ev x = Some (b, x1)" by auto
  have nb: "\<not> b"
  proof
    assume b
    with sw have "cmd_completion_switch h ev x = Some (True, x1)" by simp
    from cmd_switch_returned [OF this] a show False by (simp add: ty_def cr_def code_def)
  qed
  note fr = cmd_switch_frame [OF sw]
  have hc: "handle_cmd_completion h ev x = inc_deq h (cmd_ring x) False x1"
    using a sw nb fr by (simp add: handle_cmd_completion_def deq_dma_def cr_def Let_def)
  have step: "handle_cmd_completion h ev x =
                 Some (x1\<lparr>rings := (rings x)(cmd_ring x :=
                    cr\<lparr>dequeue := dequeue cr + 1, deq_updates := deq_updates cr + 1\<rparr>)\<rparr>)"
    if "cmd_ring x \<noteq> event_ring x \<and> \<not> is_link h (mem x (dequeue cr + 1))"
  proof -
    have "\<not> last_trb h x1 (cmd_ring x) (deq_seg (rings x1 (cmd_ring x))) (dequeue (rings x1 (cmd_ring x)) + 1)"
      using that fr by (simp add: last_trb_def is_link_def cr_def)
    from inc_deq_no_link [OF this] show ?thesis
      using fr by (simp add: hc cr_def)
  qed
  show "\<exists>x1. cmd_completion_switch h ev x = Some (False, x1) \<and>
            rings x1 = rings x \<and> mem x1 = mem x \<and> segs x1 = segs x \<and>
            handle_cmd_completion h ev x = inc_deq h (cmd_ring x) False x1 \<and>
            (cmd_ring x \<noteq> event_ring x \<and> \<not> is_link h (mem x (dequeue cr + 1)) \<longrightarrow>
               handle_cmd_completion h ev x =
                 Some (x1\<lparr>rings := (rings x)(cmd_ring x :=
                    cr\<lparr>dequeue := dequeue cr + 1, deq_updates := deq_updates cr + 1\<rparr>)\<rparr>))"
    using sw nb fr hc step by auto
next
  assume a: "deq_dma \<noteq> 0 \<and> event_cmd_trb ev = deq_dma \<and> distinct (cmd_case_labels h)"
  have hc: "handle_cmd_completion h ev x =
      (case cmd_completion_switch h ev x of None \<Rightarrow> None
       | Some (returned, x1) \<Rightarrow> if returned then Some x1 else inc_deq h (cmd_ring x1) False x1)"
    using a by (simp add: handle_cmd_completion_def deq_dma_def cr_def Let_def)
  from a have "distinct (rev (cmd_case_labels h))" by simp
  note d = this [unfolded cmd_case_labels_def list.map rev.simps append.simps, simplified]
  note defs = hc cmd_completion_switch_def Let_def ty_def [symmetric] cr_def [symmetric] code_def [symmetric]
    slot_id_def [symmetric] ok_def status_def advance_def
  {
    assume "ty = TRB_TYPE h (TRB_CMD_NOOP h)"
    then show "handle_cmd_completion h ev x = advance x"
      by (simp add: defs)
  next
    assume "ty = TRB_TYPE h (TRB_ENABLE_SLOT h)"
    then show "handle_cmd_completion h ev x =
           advance (x\<lparr>g_slot_id := (if ok then slot_id else 0), g_cmd_status := status ok\<rparr>)"
      using d by (simp add: defs)
  next
    assume "ty = TRB_TYPE h (TRB_DISABLE_SLOT h)"
    then show "handle_cmd_completion h ev x =
           advance (if ok then x\<lparr>g_slot_id := slot_id, g_cmd_status := CMD_DONE\<rparr> else x)"
      using d by (simp add: defs)
  next
    assume "ty = TRB_TYPE h (TRB_ADDR_DEV h)"
    then show "handle_cmd_completion h ev x =
           advance (x\<lparr>g_cmd_status := status (ok \<or> code = COMP_CMD_ABORT h)\<rparr>)"
      using d by (simp add: defs)
  next
    assume "ty = TRB_TYPE h (TRB_CONFIG_EP h) \<or> ty = TRB_TYPE h (TRB_RESET_DEV h) \<or>
       ty = TRB_TYPE h (TRB_STOP_RING h) \<or> ty = TRB_TYPE h (TRB_EVAL_CONTEXT h)"
    then show "handle_cmd_completion h ev x = advance (x\<lparr>g_cmd_status := status ok\<rparr>)"
      using d by (elim disjE) (simp_all add: defs)
  next
    assume "ty = TRB_TYPE h (TRB_SET_DEQ h) \<and> \<not> ok"
    then show "handle_cmd_completion h ev x = advance (x\<lparr>g_cmd_status := CMD_FAIL\<rparr>)"
      using d by (simp add: defs)
  next
    assume "ty = TRB_TYPE h (TRB_SET_DEQ h) \<and> ok \<and> devs x slot_id = Some dev \<and> ep_index < 31"
    then show "handle_cmd_completion h ev x = advance ((clear (SET_DEQ_PENDING h))\<lparr>g_cmd_status := CMD_DONE\<rparr>)"
      using d by (simp add: defs clear_ep_flag_def clear_def ep_index_def)
  next
    assume "ty = TRB_TYPE h (TRB_RESET_EP h) \<and> devs x slot_id = Some dev \<and> ep_index < 31"
    then show "handle_cmd_completion h ev x = advance ((clear (EP_HALTED h))\<lparr>g_cmd_status := CMD_DONE\<rparr>)"
      using d by (simp add: defs clear_ep_flag_def clear_def ep_index_def)
  next
    assume "\<not> handled_cmd_type h ty \<and> code \<noteq> COMP_CMD_STOP h"
    then show "handle_cmd_completion h ev x =
           advance (x\<lparr>error_bitmask := error_bitmask x OR push_bit 6 1, g_cmd_status := CMD_FAIL\<rparr>)"
      by (simp add: hc advance_def cmd_switch_unhandled ty_def cr_def code_def)
  }
qed


lemmas ex_cmd_defs = ex_state_cmd_def ex_cmd_event_def event_cmd_trb_def event_status_def event_flags_def
  xhci_trb_virt_to_dma_def handled_cmd_type_def ex_state_addr_dev_def ex_state_reset_ep_def
  ex_cmd_event_slot1_def ex_state_halted_def ex_ep_def cmd_case_labels_def

text \<open>
  The theorem at the example controller: a successful Enable Slot completion (the cursor
  moves from 4000 to 4001, slot 5 is recorded); the same event with an address that does
  not match (error bit 5, nothing else); an Address Device command that completes with a
  transaction error (failed) and one that completes as aborted (done); and a Reset Endpoint
  command for endpoint ID 2 of slot 1, which clears \<^verbatim>\<open>EP_HALTED\<close> in \<^verbatim>\<open>eps[1]\<close> and in no
  other endpoint.
\<close>

theorem cmd_completion_dispatch_witness:
  "handle_cmd_completion xhci_h_linux (ex_cmd_event 1) ex_state_cmd \<noteq> None \<and>
   dequeue (rings (the (handle_cmd_completion xhci_h_linux (ex_cmd_event 1) ex_state_cmd)) 2) = 4001 \<and>
   g_cmd_status (the (handle_cmd_completion xhci_h_linux (ex_cmd_event 1) ex_state_cmd)) = CMD_DONE \<and>
   g_slot_id (the (handle_cmd_completion xhci_h_linux (ex_cmd_event 1) ex_state_cmd)) = 5 \<and>
   handle_cmd_completion xhci_h_linux ((ex_cmd_event 1)\<lparr>field0 := 0x40010\<rparr>) ex_state_cmd =
     Some (ex_state_cmd\<lparr>error_bitmask := 32\<rparr>) \<and>
   g_cmd_status (the (handle_cmd_completion xhci_h_linux (ex_cmd_event 5) ex_state_addr_dev)) = CMD_FAIL \<and>
   dequeue (rings (the (handle_cmd_completion xhci_h_linux (ex_cmd_event 5) ex_state_addr_dev)) 2) = 4001 \<and>
   g_cmd_status (the (handle_cmd_completion xhci_h_linux (ex_cmd_event 25) ex_state_addr_dev)) = CMD_DONE \<and>
   g_cmd_status (the (handle_cmd_completion xhci_h_linux (ex_cmd_event_slot1 5) ex_state_reset_ep)) = CMD_DONE \<and>
   dequeue (rings (the (handle_cmd_completion xhci_h_linux (ex_cmd_event_slot1 5) ex_state_reset_ep)) 2) = 4001 \<and>
   map (\<lambda>i. ep_state (eps (the (devs (the (handle_cmd_completion xhci_h_linux (ex_cmd_event_slot1 5)
      ex_state_reset_ep)) 1)) i)) [0, 1, 2] = [2, 0, 2]"
proof -
  have sw: "cmd_completion_switch xhci_h_linux (ex_cmd_event 1) ex_state_cmd =
      Some (False, ex_state_cmd\<lparr>g_slot_id := 5, g_cmd_status := CMD_DONE\<rparr>)"
    by (simp add: cmd_completion_switch_def Let_def ex_defs ex_cmd_defs)
  have pre: "xhci_trb_virt_to_dma xhci_h_linux ex_state_cmd (deq_seg (rings ex_state_cmd (cmd_ring ex_state_cmd)))
        (dequeue (rings ex_state_cmd (cmd_ring ex_state_cmd))) = 0x40000"
    "event_cmd_trb (ex_cmd_event 1) = 0x40000"
    "event_cmd_trb ((ex_cmd_event 1)\<lparr>field0 := 0x40010\<rparr>) = 0x40010"
    "handled_cmd_type xhci_h_linux (field3 (mem ex_state_cmd (dequeue (rings ex_state_cmd (cmd_ring ex_state_cmd))))
        AND TRB_TYPE_BITMASK xhci_h_linux)"
    "cmd_ring ex_state_cmd \<noteq> event_ring ex_state_cmd"
    "\<not> is_link xhci_h_linux (mem ex_state_cmd (dequeue (rings ex_state_cmd (cmd_ring ex_state_cmd)) + 1))"
    by (simp_all add: ex_defs ex_cmd_defs)
  from cmd_completion_dispatch [where h = xhci_h_linux and x = ex_state_cmd and ev = "ex_cmd_event 1",
      THEN conjunct2, THEN conjunct2, THEN conjunct2, THEN conjunct1]
    pre sw
  have 1: "handle_cmd_completion xhci_h_linux (ex_cmd_event 1) ex_state_cmd =
      Some (ex_state_cmd\<lparr>g_slot_id := 5, g_cmd_status := CMD_DONE,
         rings := (rings ex_state_cmd)(cmd_ring ex_state_cmd := (rings ex_state_cmd (cmd_ring ex_state_cmd))
            \<lparr>dequeue := dequeue (rings ex_state_cmd (cmd_ring ex_state_cmd)) + 1,
             deq_updates := deq_updates (rings ex_state_cmd (cmd_ring ex_state_cmd)) + 1\<rparr>)\<rparr>)"
    by auto
  from cmd_completion_dispatch [where h = xhci_h_linux and x = ex_state_cmd
      and ev = "(ex_cmd_event 1)\<lparr>field0 := 0x40010\<rparr>", THEN conjunct2, THEN conjunct1] pre
  have 2: "handle_cmd_completion xhci_h_linux ((ex_cmd_event 1)\<lparr>field0 := 0x40010\<rparr>) ex_state_cmd =
     Some (ex_state_cmd\<lparr>error_bitmask := error_bitmask ex_state_cmd OR push_bit 5 1\<rparr>)"
    by simp
  have lab: "distinct (cmd_case_labels xhci_h_linux)"
    by (simp add: ex_defs ex_cmd_defs)
  have pre3: "xhci_trb_virt_to_dma xhci_h_linux ex_state_addr_dev
        (deq_seg (rings ex_state_addr_dev (cmd_ring ex_state_addr_dev)))
        (dequeue (rings ex_state_addr_dev (cmd_ring ex_state_addr_dev))) = 0x40000"
    "event_cmd_trb (ex_cmd_event 5) = 0x40000" "event_cmd_trb (ex_cmd_event 25) = 0x40000"
    "field3 (mem ex_state_addr_dev (dequeue (rings ex_state_addr_dev (cmd_ring ex_state_addr_dev))))
        AND TRB_TYPE_BITMASK xhci_h_linux = TRB_TYPE xhci_h_linux (TRB_ADDR_DEV xhci_h_linux)"
    "GET_COMP_CODE xhci_h_linux (event_status (ex_cmd_event 5)) = 5"
    "GET_COMP_CODE xhci_h_linux (event_status (ex_cmd_event 25)) = 25"
    "COMP_SUCCESS xhci_h_linux = 1" "COMP_CMD_ABORT xhci_h_linux = 25"
    "cmd_ring ex_state_addr_dev = 2"
    by (simp_all add: ex_defs ex_cmd_defs)
  from cmd_completion_dispatch [where h = xhci_h_linux and x = ex_state_addr_dev and ev = "ex_cmd_event 5",
      THEN conjunct2, THEN conjunct2, THEN conjunct2, THEN conjunct2]
    pre3 lab
  have 3: "handle_cmd_completion xhci_h_linux (ex_cmd_event 5) ex_state_addr_dev =
     inc_deq xhci_h_linux 2 False (ex_state_addr_dev\<lparr>g_cmd_status := CMD_FAIL\<rparr>)"
    by simp
  from cmd_completion_dispatch [where h = xhci_h_linux and x = ex_state_addr_dev and ev = "ex_cmd_event 25",
      THEN conjunct2, THEN conjunct2, THEN conjunct2, THEN conjunct2]
    pre3 lab
  have 4: "handle_cmd_completion xhci_h_linux (ex_cmd_event 25) ex_state_addr_dev =
     inc_deq xhci_h_linux 2 False (ex_state_addr_dev\<lparr>g_cmd_status := CMD_DONE\<rparr>)"
    by simp
  have pre5: "xhci_trb_virt_to_dma xhci_h_linux ex_state_reset_ep
        (deq_seg (rings ex_state_reset_ep (cmd_ring ex_state_reset_ep)))
        (dequeue (rings ex_state_reset_ep (cmd_ring ex_state_reset_ep))) = 0x40000"
    "event_cmd_trb (ex_cmd_event_slot1 5) = 0x40000"
    "field3 (mem ex_state_reset_ep (dequeue (rings ex_state_reset_ep (cmd_ring ex_state_reset_ep))))
        AND TRB_TYPE_BITMASK xhci_h_linux = TRB_TYPE xhci_h_linux (TRB_RESET_EP xhci_h_linux)"
    "TRB_TO_SLOT_ID xhci_h_linux (event_flags (ex_cmd_event_slot1 5)) = 1"
    "unat (TRB_TO_EP_INDEX xhci_h_linux
        (field3 (mem ex_state_reset_ep (dequeue (rings ex_state_reset_ep (cmd_ring ex_state_reset_ep)))))) = 1"
    "devs ex_state_reset_ep 1 =
       Some \<lparr>eps = (\<lambda>i. ex_ep 2), out_ctx_ep_state = (\<lambda>i. EP_STATE_HALTED)\<rparr>"
    "EP_HALTED xhci_h_linux = 2"
    "cmd_ring ex_state_reset_ep = 2"
    by (simp_all add: ex_defs ex_cmd_defs)
  from cmd_completion_dispatch [where h = xhci_h_linux and x = ex_state_reset_ep
     and ev = "ex_cmd_event_slot1 5"
     and dev = "\<lparr>eps = (\<lambda>i. ex_ep 2), out_ctx_ep_state = (\<lambda>i. EP_STATE_HALTED)\<rparr>",
      THEN conjunct2, THEN conjunct2, THEN conjunct2, THEN conjunct2]
    pre5 lab
  have 5: "handle_cmd_completion xhci_h_linux (ex_cmd_event_slot1 5) ex_state_reset_ep =
     inc_deq xhci_h_linux 2 False
       (ex_state_reset_ep\<lparr>devs := (devs ex_state_reset_ep)(1 := Some
           \<lparr>eps = (\<lambda>i. ex_ep 2)(1 := ex_ep 0), out_ctx_ep_state = (\<lambda>i. EP_STATE_HALTED)\<rparr>),
          g_cmd_status := CMD_DONE\<rparr>)"
    by (simp add: ex_ep_def)
  show ?thesis
    unfolding 1 2 3 4 5 by (simp add: inc_deq_no_link last_trb_def ex_defs ex_cmd_defs)
qed

text \<open>
  A Reset Endpoint command whose TRB names endpoint ID 0: the index wraps around to
  \<^verbatim>\<open>0xFFFFFFFF\<close>, outside \<^verbatim>\<open>eps[]\<close>, and the handler has no result.
\<close>

lemma reset_ep_endpoint_id_zero:
  "TRB_TO_EP_INDEX xhci_h_linux 0x3800 = 0xFFFFFFFF \<and>
   handle_cmd_completion xhci_h_linux (ex_cmd_event_slot1 1)
     (ex_state_halted\<lparr>mem := (mem ex_state_halted)(4000 := ex_trb 0x3800)\<rparr>) = None"
  by (simp add: handle_cmd_completion_def cmd_completion_switch_def clear_ep_flag_def Let_def
      ex_defs ex_cmd_defs unsigned_minus_1_eq_mask mask_eq_exp_minus_1)

text \<open>
  C7 as stated fails: the event's address matches the command ring's dequeue pointer, the
  command TRB there is of no handled type and the completion code is \<^verbatim>\<open>COMP_CMD_STOP\<close>; the
  handler returns with the dequeue cursor where it was and without an error bit.
\<close>

theorem cmd_completion_dispatch_counterexample:
  "event_cmd_trb (ex_cmd_event 24) =
     xhci_trb_virt_to_dma xhci_h_linux ex_state_a (deq_seg (rings ex_state_a (cmd_ring ex_state_a)))
        (dequeue (rings ex_state_a (cmd_ring ex_state_a))) \<and>
   event_cmd_trb (ex_cmd_event 24) \<noteq> 0 \<and>
   handle_cmd_completion xhci_h_linux (ex_cmd_event 24) ex_state_a = Some (ex_state_a\<lparr>g_cmd_status := CMD_DONE\<rparr>) \<and>
   dequeue (rings (ex_state_a\<lparr>g_cmd_status := CMD_DONE\<rparr>) (cmd_ring ex_state_a)) =
     dequeue (rings ex_state_a (cmd_ring ex_state_a)) \<and>
   error_bitmask (ex_state_a\<lparr>g_cmd_status := CMD_DONE\<rparr>) = error_bitmask ex_state_a"
  by (simp add: handle_cmd_completion_def cmd_completion_switch_def Let_def ex_defs ex_cmd_defs)

subsection \<open>C10: the length reported on giveback\<close>

lemma td_cleanup_clamps:
  assumes "td_cleanup h td status x us = (ret, status', x', us')"
  shows "actual_length (urbs us' (td_urb (tds us td))) \<le> transfer_buffer_length (urbs us' (td_urb (tds us td))) \<and>
     transfer_buffer_length (urbs us' (td_urb (tds us td))) = transfer_buffer_length (urbs us (td_urb (tds us td))) \<and>
     (actual_length (urbs us (td_urb (tds us td))) > transfer_buffer_length (urbs us (td_urb (tds us td))) \<longrightarrow>
        actual_length (urbs us' (td_urb (tds us td))) = 0 \<and>
        status' = (if transfer_flags (urbs us (td_urb (tds us td))) AND URB_SHORT_NOT_OK h \<noteq> 0
                   then Some EREMOTEIO else None)) \<and>
     (actual_length (urbs us (td_urb (tds us td))) \<le> transfer_buffer_length (urbs us (td_urb (tds us td))) \<longrightarrow>
        actual_length (urbs us' (td_urb (tds us td))) = actual_length (urbs us (td_urb (tds us td))) \<and>
        status' = status)"
  using assms by (auto simp add: td_cleanup_def Let_def split: if_splits)

lemma finish_td_reaches_cleanup:
  assumes "finish_td h dma_to_ring halt_cleanup td event_trb event ep status skip x us = Some res"
    and "fst res \<noteq> 0 \<or> skip \<or>
         (GET_COMP_CODE h (event_transfer_len event) \<noteq> COMP_STOP_INVAL h \<and>
          GET_COMP_CODE h (event_transfer_len event) \<noteq> COMP_STOP h)"
  shows "\<exists>x1. res = td_cleanup h td status x1 us"
  using assms
  unfolding finish_td_def Let_def
  by (auto split: option.splits if_splits)

text \<open>
  Claim C10. Whenever \<^verbatim>\<open>finish_td\<close> returns 1 (the URB can be given back), the URB's
  \<^verbatim>\<open>actual_length\<close> is at most its \<^verbatim>\<open>transfer_buffer_length\<close>, which is unchanged: an
  \<^verbatim>\<open>actual_length\<close> that came in larger than the buffer length has been set to 0 and the
  status to 0, or to \<^verbatim>\<open>-EREMOTEIO\<close> when the URB has \<^verbatim>\<open>URB_SHORT_NOT_OK\<close>; an
  \<^verbatim>\<open>actual_length\<close> within the buffer length and the status are passed on as they are.
\<close>

theorem finish_td_clamps_actual_length:
  fixes us us' :: urb_store and td :: td_ptr
  defines "u \<equiv> urbs us (td_urb (tds us td))"
  defines "u' \<equiv> urbs us' (td_urb (tds us td))"
  assumes fin: "finish_td h dma_to_ring halt_cleanup td event_trb event ep status skip x us =
                  Some (ret, status', x', us')"
    and given: "ret = 1"
  shows "actual_length u' \<le> transfer_buffer_length u' \<and>
     transfer_buffer_length u' = transfer_buffer_length u \<and>
     (actual_length u > transfer_buffer_length u \<longrightarrow>
        actual_length u' = 0 \<and>
        status' = (if transfer_flags u AND URB_SHORT_NOT_OK h \<noteq> 0 then Some EREMOTEIO else None)) \<and>
     (actual_length u \<le> transfer_buffer_length u \<longrightarrow>
        actual_length u' = actual_length u \<and> status' = status)"
proof -
  from finish_td_reaches_cleanup [OF fin] given
  obtain x1 where "td_cleanup h td status x1 us = (ret, status', x', us')" by auto
  from td_cleanup_clamps [OF this] show ?thesis unfolding u_def u'_def by blast
qed


lemma ex_finish_td:
  "finish_td xhci_h_linux (\<lambda>e b. 1) (\<lambda>s e i t p u y. Some y) 1 1001 (ex_tx_event 0x10010 1) (1, 0) (Some EINPROGRESS) False
     ex_state_td ex_urbs =
   Some (1, None,
     ex_hcd ((ex_ring 1 1002 1 1002 1 [])\<lparr>deq_updates := 2\<rparr>),
     ex_urbs\<lparr>urbs := (urbs ex_urbs)(1 := ex_urb 100 0 1)\<rparr>)"
  apply (simp add: finish_td_def Let_def ex_defs ex_urbs_def ex_urb_def ex_state_td_def ex_tx_event_def event_flags_def
      event_transfer_len_def event_buffer_def xhci_requires_manual_halt_cleanup_def
      finish_td_deq_loop.simps inc_deq_def inc_deq_loop.simps last_trb_def td_cleanup_def
      word_less_nat_alt word_le_nat_alt)
  apply (auto simp: fun_eq_iff ex_ring_def)
  done


text \<open>
  The theorem at the example: the TD completes with success, the dequeue pointer moves
  past its two TRBs, and the wrapped length is reported as 0 with status 0.
\<close>

theorem finish_td_clamps_actual_length_witness:
  "transfer_buffer_length (urbs ex_urbs (td_urb (tds ex_urbs 1))) < actual_length (urbs ex_urbs (td_urb (tds ex_urbs 1))) \<and>
   (\<exists>x' us'. finish_td xhci_h_linux (\<lambda>e b. 1) (\<lambda>s e i t p u y. Some y) 1 1001 (ex_tx_event 0x10010 1) (1, 0)
        (Some EINPROGRESS) False ex_state_td ex_urbs = Some (1, None, x', us') \<and>
      actual_length (urbs us' (td_urb (tds ex_urbs 1))) = 0 \<and>
      transfer_buffer_length (urbs us' (td_urb (tds ex_urbs 1))) = 100)"
proof -
  have gt: "transfer_buffer_length (urbs ex_urbs (td_urb (tds ex_urbs 1))) < actual_length (urbs ex_urbs (td_urb (tds ex_urbs 1)))"
    by (simp add: ex_urbs_def ex_urb_def word_less_nat_alt)
  have len: "transfer_buffer_length (urbs ex_urbs (td_urb (tds ex_urbs 1))) = 100"
    by (simp add: ex_urbs_def ex_urb_def)
  note T = finish_td_clamps_actual_length [OF ex_finish_td refl]
  from T gt have a: "actual_length (urbs (ex_urbs\<lparr>urbs := (urbs ex_urbs)(1 := ex_urb 100 0 1)\<rparr>) (td_urb (tds ex_urbs 1))) = 0"
    by blast
  from T len have b: "transfer_buffer_length (urbs (ex_urbs\<lparr>urbs := (urbs ex_urbs)(1 := ex_urb 100 0 1)\<rparr>) (td_urb (tds ex_urbs 1))) = 100"
    by presburger
  from gt ex_finish_td a b show ?thesis by blast
qed

subsection \<open>C8: stray and orphaned transfer events\<close>








subsection \<open>C6: control transfers\<close>

lemma unat_ucast_16_32: "unat (ucast (w :: 16 word) :: 32 word) = unat w"
proof -
  have "take_bit 32 (unat w) = unat w"
    using unsigned_less [of w, where 'a = nat] by (intro take_bit_nat_eq_self) simp
  then show ?thesis by (simp add: unsigned_ucast_eq)
qed

lemma ucast_16_32_eq_0: "(ucast (w :: 16 word) :: 32 word) = 0 \<longleftrightarrow> w = 0"
  by (metis unat_ucast_16_32 unat_eq_0)

text \<open>
  What the code does in general. For a control URB with a setup packet (and a nonzero
  \<^verbatim>\<open>wMaxPacketSize\<close>) \<^verbatim>\<open>xhci_queue_ctrl_tx\<close> reserves 3 TRBs when the transfer length is
  positive and 2 otherwise, and queues, in this order: one Setup TRB (\<^verbatim>\<open>TRB_IDT\<close>, length 8,
  the request packed into the two pointer words, transfer type no-data, IN or OUT); one
  Data TRB carrying the buffer when the length is positive; one more Data TRB of length 0
  when the URB has \<^verbatim>\<open>URB_ZERO_PACKET\<close> and the length is a multiple of \<^verbatim>\<open>wMaxPacketSize\<close>
  (so also for length 0); and one Status TRB. Every Data TRB has \<^verbatim>\<open>TRB_DIR_IN\<close> exactly for
  an IN request, the Status TRB exactly when there is no data or the request is OUT. Without
  \<^verbatim>\<open>URB_ZERO_PACKET\<close> the number of TRBs is the reserved one, and a Data TRB is present
  exactly when the length is positive, which is what C6 says.
\<close>

lemma xhci_queue_ctrl_tx_trbs_shape:
  fixes h :: xhci_h and u :: urb and req :: usb_ctrlrequest
  assumes sp: "setup_packet u = Some req"
    and maxp: "wMaxPacketSize u \<noteq> 0"
  defines "len \<equiv> transfer_buffer_length u"
    and "is_in \<equiv> bRequestType req AND USB_DIR_IN h \<noteq> 0"
  defines "zlp \<equiv> transfer_flags u AND URB_ZERO_PACKET h \<noteq> 0 \<and> len mod ucast (wMaxPacketSize u) = 0"
  shows "\<exists>ts. xhci_queue_ctrl_tx_trbs h u = Some (Inr (if len > 0 then 3 else 2, ts)) \<and>
           map stage ts = [Setup_TRB] @ (if len > 0 then [Data_TRB] else [])
                            @ (if zlp then [Data_TRB] else []) @ [Status_TRB] \<and>
           map word2 ts = [TRB_LEN h 8 OR TRB_INTR_TARGET h 0]
                            @ (if len > 0 then [TRB_LEN h len OR TRB_INTR_TARGET h 0] else [])
                            @ (if zlp then [0] else []) @ [TRB_INTR_TARGET h 0] \<and>
           word0 (hd ts) = ucast (bRequestType req) OR push_bit 8 (ucast (bRequest req))
                             OR push_bit 16 (ucast (wValue req)) \<and>
           word1 (hd ts) = ucast (wIndex req) OR push_bit 16 (ucast (wLength req)) \<and>
           ctrl_bits (hd ts) = TRB_IDT h OR
              TRB_TRT h (if len = 0 then TRT_NO_DATA h else if is_in then TRT_IN_DATA h else TRT_OUT_DATA h) \<and>
           (\<forall>t \<in> set ts. stage t = Data_TRB \<longrightarrow>
              ctrl_bits t = (if is_in then TRB_DIR_IN h else 0) OR TRB_ISP h) \<and>
           ctrl_bits (last ts) = (if len > 0 \<and> is_in then 0 else TRB_DIR_IN h) OR TRB_IOC h \<and>
           (transfer_flags u AND URB_ZERO_PACKET h = 0 \<longrightarrow>
              length ts = (if len > 0 then 3 else 2) \<and> (Data_TRB \<in> stage ` set ts \<longleftrightarrow> len > 0))"
proof -
  have m: "(ucast (wMaxPacketSize u) :: u32) \<noteq> 0"
    using maxp by (simp add: ucast_16_32_eq_0)
  show ?thesis
    unfolding xhci_queue_ctrl_tx_trbs_def len_def is_in_def zlp_def
    using m by (simp add: sp Let_def word_gt_0)
qed

lemma ctrl_no_zero_packet_example:
  "\<exists>ts. xhci_queue_ctrl_tx_trbs xhci_h_linux (ex_ctrl_urb 18 0) = Some (Inr (3, ts)) \<and>
      map stage ts = [Setup_TRB, Data_TRB, Status_TRB] \<and>
      ctrl_bits (hd ts) = 0x30040 \<and> ctrl_bits (last ts) = 0x20 \<and> length ts = 3"
proof -
  have s: "setup_packet (ex_ctrl_urb 18 0) = Some ex_setup"
    and m: "wMaxPacketSize (ex_ctrl_urb 18 0) \<noteq> 0"
    by (simp_all add: ex_ctrl_urb_def)
  from xhci_queue_ctrl_tx_trbs_shape [OF s m, of xhci_h_linux]
  show ?thesis
    by (auto simp add: ex_ctrl_urb_def ex_urb_def ex_setup_def xhci_h_linux_def)
qed

text \<open>
  Claim C6 at a control URB of length 0 with \<^verbatim>\<open>URB_ZERO_PACKET\<close> set, on an endpoint with
  64-byte packets. The function counts two TRBs (\<^verbatim>\<open>1 TRB for setup, 1 for status\<close>), has
  \<^verbatim>\<open>prepare_transfer\<close> check the ring for two, marks the Setup TRB as \<^verbatim>\<open>TRT_NO_DATA\<close>, and then
  queues three: Setup, a Data TRB of length 0, Status. With length 64 it counts three and
  queues four, two of them Data TRBs. The claim asks for Setup and Status alone at length
  0 and for at most one Data TRB. \<^verbatim>\<open>xhci_queue_bulk_tx\<close> counts its zero-length TRB
  (\<^verbatim>\<open>num_trbs++\<close>) before it reserves; here the count is taken before the zero-length block
  and never adjusted.
\<close>

theorem control_transfer_zero_packet_unreserved:
  "transfer_buffer_length (ex_ctrl_urb 0 0x40) = 0 \<and>
   transfer_flags (ex_ctrl_urb 0 0x40) AND URB_ZERO_PACKET xhci_h_linux \<noteq> 0 \<and>
   (\<exists>ts. xhci_queue_ctrl_tx_trbs xhci_h_linux (ex_ctrl_urb 0 0x40) = Some (Inr (2, ts)) \<and>
      map stage ts = [Setup_TRB, Data_TRB, Status_TRB] \<and> length ts = 3 \<and>
      ctrl_bits (hd ts) = TRB_IDT xhci_h_linux OR TRB_TRT xhci_h_linux (TRT_NO_DATA xhci_h_linux)) \<and>
   (\<exists>ts. xhci_queue_ctrl_tx_trbs xhci_h_linux (ex_ctrl_urb 64 0x40) = Some (Inr (3, ts)) \<and>
      map stage ts = [Setup_TRB, Data_TRB, Data_TRB, Status_TRB] \<and> length ts = 4)"
  by (simp add: xhci_queue_ctrl_tx_trbs_def ex_ctrl_urb_def ex_urb_def ex_setup_def xhci_h_linux_def Let_def)

subsection \<open>The bulk builder\<close>

lemma TRB_MAX_BUFF_SIZE_unat: "unat TRB_MAX_BUFF_SIZE = 65536"
  by (simp add: TRB_MAX_BUFF_SIZE_def TRB_MAX_BUFF_SHIFT_def)

lemma TRB_MAX_BUFF_SIZE_val: "TRB_MAX_BUFF_SIZE = 65536"
  by (simp add: TRB_MAX_BUFF_SIZE_def TRB_MAX_BUFF_SHIFT_def)

lemma bytes_to_boundary_unat: "unat (bytes_to_boundary a) = 65536 - unat a mod 65536"
proof -
  have m: "a AND 65535 = take_bit 16 a"
    by (simp add: take_bit_eq_mask mask_eq_exp_minus_1)
  have u: "unat (a AND 65535) = unat a mod 65536"
    unfolding m by (simp add: unsigned_take_bit_eq take_bit_eq_mod unat_mod)
  have le: "a AND 65535 \<le> 65536"
    using u by (simp add: word_le_nat_alt)
  have s: "unat ((65536 :: u64) - (a AND 65535)) = 65536 - unat a mod 65536"
    using le u by (simp add: unat_sub)
  have "unat (ucast ((65536 :: u64) - (a AND 65535)) :: u32) = unat ((65536 :: u64) - (a AND 65535))"
    using s by (simp add: unsigned_ucast_eq take_bit_nat_eq_self)
  then show ?thesis
    by (simp add: bytes_to_boundary_def s TRB_MAX_BUFF_SIZE_val TRB_MAX_BUFF_SHIFT_def)
qed

lemma count_chunks_loop_nat:
  assumes "unat len < 2 ^ 31"
  shows "count_chunks_loop len n rt = Some (n + of_nat ((unat len - unat rt + 65535) div 65536))"
  using assms
proof (induction "(unat len - unat rt + 65535) div 65536" arbitrary: n rt)
  case 0
  then have "\<not> rt < len" by (simp add: word_less_nat_alt)
  with 0 show ?case by (subst count_chunks_loop.simps) simp
next
  case (Suc k)
  then have lt: "rt < len" by (auto simp add: word_less_nat_alt)
  then have u: "unat (rt + TRB_MAX_BUFF_SIZE) = unat rt + 65536"
    using Suc.prems by (simp add: unat_word_ariths TRB_MAX_BUFF_SIZE_unat word_less_nat_alt)
  have k: "k = (unat len - unat (rt + TRB_MAX_BUFF_SIZE) + 65535) div 65536"
    using Suc.hyps(2) lt by (simp add: u word_less_nat_alt)
  have "count_chunks_loop len n rt = count_chunks_loop len (n + 1) (rt + TRB_MAX_BUFF_SIZE)"
    using lt by (subst count_chunks_loop.simps) simp
  also have "\<dots> = Some (n + 1 + of_nat k)"
    using Suc.hyps(1) [OF k Suc.prems, of "n + 1"] k by simp
  also have "\<dots> = Some (n + of_nat (Suc k))"
    by simp
  finally show ?case
    by (simp only: Suc.hyps(2))
qed

lemma xhci_td_remainder_nat:
  assumes L: "unat len < 2 ^ 31" and M0: "maxp \<noteq> 0" and M: "unat maxp < 65536"
    and le: "unat rt + unat bl \<le> unat len"
  shows "xhci_td_remainder len rt maxp bl =
           Some (if unat rt + unat bl = unat len then 0
                 else push_bit 17 (of_nat (min 31
                        ((unat len + unat maxp - 1) div unat maxp - unat rt div unat maxp))))"
proof -
  have mpos: "0 < unat maxp"
    using M0 by (simp add: unat_gt_0)
  have s: "unat (rt + bl) = unat rt + unat bl"
    using L le by (simp add: unat_word_ariths)
  have e: "rt + bl = len \<longleftrightarrow> unat rt + unat bl = unat len"
    using s by (auto simp add: word_unat_eq_iff)
  have p1: "unat (len + maxp) = unat len + unat maxp"
    using L M by (simp add: unat_word_ariths)
  have "1 \<le> len + maxp"
    using p1 mpos by (simp add: word_le_nat_alt)
  then have p: "unat (len + maxp - 1) = unat len + unat maxp - 1"
    using p1 by (simp add: unat_sub)
  define R where "R = (len + maxp - 1) div maxp - rt div maxp"
  have c: "unat ((len + maxp - 1) div maxp) = (unat len + unat maxp - 1) div unat maxp"
    by (simp add: unat_div p)
  have t: "unat (rt div maxp) = unat rt div unat maxp"
    by (simp add: unat_div)
  have "unat rt \<le> unat len + unat maxp - 1"
    using le mpos by simp
  then have "unat rt div unat maxp \<le> (unat len + unat maxp - 1) div unat maxp"
    by (rule div_le_mono)
  then have "rt div maxp \<le> (len + maxp - 1) div maxp"
    by (simp add: word_le_nat_alt c t)
  then have r: "unat R = (unat len + unat maxp - 1) div unat maxp - unat rt div unat maxp"
    by (simp add: R_def unat_sub c t)
  have g: "31 < R \<longleftrightarrow> 31 < unat R"
    by (simp add: word_less_nat_alt)
  have w: "(of_nat (min 31 (unat R)) :: u32) = (if 31 < R then 31 else R)"
    by (simp add: g min_def)
  show ?thesis
    unfolding xhci_td_remainder_def Let_def R_def [symmetric] r [symmetric] w
    using M0 by (simp add: e)
qed

lemma sint_uint_32:
  assumes "unat (a :: 32 word) < 2 ^ 31"
  shows "sint a = uint a"
proof -
  from assms have "int (unat a) < int (2 ^ 31)"
    by (simp only: of_nat_less_iff)
  then have "uint a < 2 ^ 31"
    by simp
  moreover have "- (2 ^ 31) \<le> uint a"
    by (rule order_trans [of _ 0]) simp_all
  ultimately have "signed_take_bit 31 (uint a) = uint a"
    by (intro signed_take_bit_int_eq_self)
  then show ?thesis
    by (simp add: sint_uint)
qed

lemma sless_unat_32:
  assumes "unat (a :: 32 word) < 2 ^ 31" and "unat (b :: 32 word) < 2 ^ 31"
  shows "a <s b \<longleftrightarrow> unat a < unat b"
  by (simp add: word_sless_alt sint_uint_32 [OF assms(1)] sint_uint_32 [OF assms(2)]
      word_less_nat_alt [symmetric] word_less_def)

lemma unat_ucast_32_64: "unat (ucast (w :: 32 word) :: 64 word) = unat w"
proof -
  have "take_bit 64 (unat w) = unat w"
    using unsigned_less [of w, where 'a = nat] by (intro take_bit_nat_eq_self) simp
  then show ?thesis by (simp add: unsigned_ucast_eq)
qed

lemma scast_ucast_32_64:
  assumes "unat (a :: 32 word) < 2 ^ 31"
  shows "(scast a :: 64 word) = ucast a"
  by (simp add: scast_eq sint_uint_32 [OF assms])

lemma unat_scast_32_64:
  assumes "unat (a :: 32 word) < 2 ^ 31"
  shows "unat (scast a :: 64 word) = unat a"
  by (simp add: scast_ucast_32_64 [OF assms] unat_ucast_32_64)

lemma queued_simps:
  "queued ts 0 = 0"
  "queued (t # ts) (Suc i) = unat (trb_buff_len t) + queued ts i"
  "queued [] i = 0"
  by (simp_all add: queued_def)

lemma queued_length: "queued ts (length ts) = sum_list (map (\<lambda>t. unat (trb_buff_len t)) ts)"
  by (simp add: queued_def)

lemma bulk_tx_loop_nat:
  fixes len maxp :: u32
  assumes L: "unat len < 2 ^ 31" and M0: "maxp \<noteq> 0" and M: "unat maxp < 65536"
  shows "\<lbrakk>unat N = c; unat rt + unat bl \<le> unat len; unat bl \<le> 65536 - unat a mod 65536;
          unat rt + unat bl < unat len \<longrightarrow> (unat a + unat bl) mod 65536 = 0;
          c = 1 + (unat len - (unat rt + unat bl) + 65535) div 65536 + z; z \<le> 1\<rbrakk>
    \<Longrightarrow> \<exists>ts. bulk_tx_loop idt len maxp N rt a bl = Some ts \<and> length ts = c \<and>
          queued ts (length ts) = unat len - unat rt \<and>
          (\<forall>i<length ts. trb_addr (ts ! i) = a + of_nat (queued ts i)) \<and>
          (\<forall>t\<in>set ts. unat (trb_addr t) mod 65536 + unat (trb_buff_len t) \<le> 65536) \<and>
          (\<forall>i<length ts. td_remainder (ts ! i) =
             (if unat rt + queued ts (Suc i) = unat len then 0
              else push_bit 17 (of_nat (min 31
                     (packets_from (unat len) (unat maxp) (unat rt + queued ts i)))))) \<and>
          (\<forall>i<length ts. trb_chain (ts ! i) \<longleftrightarrow> Suc i < length ts) \<and>
          (\<forall>t\<in>set ts. trb_idt t = idt) \<and>
          (\<forall>i<length ts. unat rt + queued ts (Suc i) < unat len \<longrightarrow>
             (unat (trb_addr (ts ! i)) + unat (trb_buff_len (ts ! i))) mod 65536 = 0) \<and>
          (z = 0 \<longrightarrow> (\<forall>i. Suc i < length ts \<longrightarrow> unat rt + queued ts (Suc i) < unat len))"
proof (induction c arbitrary: N rt a bl z)
  case 0
  then show ?case by simp
next
  case (Suc c)
  note prems = Suc.prems
  define R where "R = unat len - (unat rt + unat bl)"
  have cR: "Suc c = 1 + (R + 65535) div 65536 + z"
    using prems(5) by (simp add: R_def)
  have Rlt: "R < 2 ^ 31"
    using L by (simp add: R_def)
  have cb: "Suc c < 2 ^ 31"
    using cR Rlt prems(6) by simp
  define rem where "rem = (if unat rt + unat bl = unat len then 0
     else push_bit 17 (of_nat (min 31 (packets_from (unat len) (unat maxp) (unat rt)))) :: u32)"
  have rem: "xhci_td_remainder len rt maxp bl = Some rem"
    unfolding rem_def packets_from_def by (rule xhci_td_remainder_nat [OF L M0 M prems(2)])
  define t where "t = \<lparr>trb_addr = a, trb_buff_len = bl, td_remainder = rem,
                         trb_chain = (1 <s N), trb_idt = idt\<rparr>"
  have chain: "1 <s N \<longleftrightarrow> 0 < c"
    using sless_unat_32 [of 1 N] prems(1) cb by auto
  have N0: "N \<noteq> 0"
    using prems(1) by auto
  have n1: "unat (N - 1) = c"
    using prems(1) N0 by (simp add: unat_minus_one)
  have cont: "0 <s N - 1 \<longleftrightarrow> 0 < c"
    using sless_unat_32 [of 0 "N - 1"] n1 cb by auto
  have rt1: "unat (rt + bl) = unat rt + unat bl"
    using L prems(2) by (simp add: unat_word_ariths)
  have "rt + bl \<le> len"
    using prems(2) by (simp add: word_le_nat_alt rt1)
  then have rest: "unat (len - (rt + bl)) = R"
    by (simp add: unat_sub rt1 R_def)
  define bl1 where "bl1 = (if TRB_MAX_BUFF_SIZE <s len - (rt + bl) then TRB_MAX_BUFF_SIZE
                           else len - (rt + bl))"
  have "TRB_MAX_BUFF_SIZE <s len - (rt + bl) \<longleftrightarrow> 65536 < R"
    using sless_unat_32 [of TRB_MAX_BUFF_SIZE "len - (rt + bl)"] Rlt
    by (simp add: rest TRB_MAX_BUFF_SIZE_unat)
  then have bl1: "unat bl1 = min 65536 R"
    by (simp add: bl1_def rest TRB_MAX_BUFF_SIZE_unat min_def)
  define a1 where "a1 = a + scast bl"
  have blb: "unat bl \<le> 65536"
    using prems(3) by simp
  then have sc: "unat (scast bl :: u64) = unat bl"
    by (intro unat_scast_32_64) simp
  have sc': "(scast bl :: u64) = ucast bl"
    using blb by (intro scast_ucast_32_64) simp
  have a1: "unat a1 = (unat a + unat bl) mod 2 ^ 64"
    by (simp add: a1_def unat_word_ariths sc)
  have a1m: "unat a1 mod 65536 = (unat a + unat bl) mod 65536"
    unfolding a1 by (rule mod_mod_cancel) simp
  have unf: "bulk_tx_loop idt len maxp N rt a bl =
      (if 0 < c then map_option (Cons t) (bulk_tx_loop idt len maxp (N - 1) (rt + bl) a1 bl1)
       else Some [t])"
    by (subst bulk_tx_loop.simps) (simp add: rem Let_def t_def cont bl1_def a1_def)
  have t_ok: "unat (trb_addr t) mod 65536 + unat (trb_buff_len t) \<le> 65536"
    using prems(3) by (simp add: t_def)
  show ?case
  proof (cases "c = 0")
    case True
    with cR have R0: "R = 0" by (simp add: div_eq_0_iff)
    then have fin: "unat rt + unat bl = unat len"
      using prems(2) by (simp add: R_def)
    show ?thesis
      using True fin t_ok
      by (simp add: unf queued_simps t_def rem_def chain)
  next
    case False
    have i2: "unat (rt + bl) + unat bl1 \<le> unat len"
      using prems(2) by (simp add: rt1 bl1 R_def)
    have i3: "unat bl1 \<le> 65536 - unat a1 mod 65536"
    proof (cases "R = 0")
      case True
      then show ?thesis by (simp add: bl1)
    next
      case False
      then have "(unat a + unat bl) mod 65536 = 0"
        using prems(4) by (simp add: R_def)
      then show ?thesis by (simp add: a1m bl1)
    qed
    have i4: "unat (rt + bl) + unat bl1 < unat len \<longrightarrow> (unat a1 + unat bl1) mod 65536 = 0"
    proof
      assume "unat (rt + bl) + unat bl1 < unat len"
      then have big: "65536 < R"
        by (simp add: rt1 bl1 R_def min_def split: if_splits)
      then have "(unat a + unat bl) mod 65536 = 0"
        using prems(4) by (simp add: R_def)
      then have "unat a1 mod 65536 = 0"
        by (simp add: a1m)
      moreover have "unat bl1 = 65536"
        using big by (simp add: bl1)
      ultimately show "(unat a1 + unat bl1) mod 65536 = 0"
        by (simp add: mod_add_left_eq [symmetric])
    qed
    define z1 where "z1 = (if R = 0 then 0 else z)"
    have i5: "c = 1 + (unat len - (unat (rt + bl) + unat bl1) + 65535) div 65536 + z1"
    proof (cases "R = 0")
      case True
      then show ?thesis
        using cR False prems(2,6) by (simp add: z1_def rt1 bl1 R_def)
    next
      case False
      have "unat len - (unat (rt + bl) + unat bl1) = R - min 65536 R"
        by (simp add: rt1 bl1 R_def)
      moreover have "(R + 65535) div 65536 = 1 + (R - min 65536 R + 65535) div 65536"
      proof (cases "65536 \<le> R")
        case True
        then obtain k where k: "R = k + 65536"
          by (metis le_add_diff_inverse2)
        have "(k + 65535 + 65536) div 65536 = (k + 65535) div 65536 + 1"
          by (rule div_add_self2) simp
        then show ?thesis
          by (simp add: k add.commute add.left_commute)
      next
        case small: False
        have "(R + 65535) div 65536 = 1"
          using small \<open>R \<noteq> 0\<close> by (intro div_nat_eqI) simp_all
        then show ?thesis
          using small by (simp add: min_def)
      qed
      ultimately show ?thesis
        using cR False by (simp add: z1_def)
    qed
    have i6: "z1 \<le> 1"
      using prems(6) by (simp add: z1_def)
    from Suc.IH [OF n1 i2 i3 i4 i5 i6]
    obtain ts where ts: "bulk_tx_loop idt len maxp (N - 1) (rt + bl) a1 bl1 = Some ts"
      and len_ts: "length ts = c"
      and q: "queued ts (length ts) = unat len - unat (rt + bl)"
      and ad: "\<forall>i<length ts. trb_addr (ts ! i) = a1 + of_nat (queued ts i)"
      and rg: "\<forall>t\<in>set ts. unat (trb_addr t) mod 65536 + unat (trb_buff_len t) \<le> 65536"
      and rm: "\<forall>i<length ts. td_remainder (ts ! i) =
             (if unat (rt + bl) + queued ts (Suc i) = unat len then 0
              else push_bit 17 (of_nat (min 31
                     (packets_from (unat len) (unat maxp) (unat (rt + bl) + queued ts i)))))"
      and ch: "\<forall>i<length ts. trb_chain (ts ! i) \<longleftrightarrow> Suc i < length ts"
      and id: "\<forall>t\<in>set ts. trb_idt t = idt"
      and bd: "\<forall>i<length ts. unat (rt + bl) + queued ts (Suc i) < unat len \<longrightarrow>
             (unat (trb_addr (ts ! i)) + unat (trb_buff_len (ts ! i))) mod 65536 = 0"
      and nf: "z1 = 0 \<longrightarrow> (\<forall>i. Suc i < length ts \<longrightarrow> unat (rt + bl) + queued ts (Suc i) < unat len)"
      by blast
    have e: "bulk_tx_loop idt len maxp N rt a bl = Some (t # ts)"
      using False by (simp add: unf ts)
    have c1: "queued (t # ts) (length (t # ts)) = unat len - unat rt"
      using q prems(2) by (simp add: queued_simps t_def rt1)
    have c2: "\<forall>i<length (t # ts). trb_addr ((t # ts) ! i) = a + of_nat (queued (t # ts) i)"
      using ad by (simp add: All_less_Suc2 queued_simps t_def a1_def sc')
    have c3: "\<forall>x\<in>set (t # ts). unat (trb_addr x) mod 65536 + unat (trb_buff_len x) \<le> 65536"
      using rg t_ok by simp
    have c4: "\<forall>i<length (t # ts). td_remainder ((t # ts) ! i) =
             (if unat rt + queued (t # ts) (Suc i) = unat len then 0
              else push_bit 17 (of_nat (min 31
                     (packets_from (unat len) (unat maxp) (unat rt + queued (t # ts) i)))))"
      using rm by (simp add: All_less_Suc2 queued_simps t_def rem_def rt1 add.assoc)
    have c5: "\<forall>i<length (t # ts). trb_chain ((t # ts) ! i) \<longleftrightarrow> Suc i < length (t # ts)"
      using ch False by (simp add: All_less_Suc2 t_def chain len_ts)
    have c6: "\<forall>x\<in>set (t # ts). trb_idt x = idt"
      using id by (simp add: t_def)
    have c7: "\<forall>i<length (t # ts). unat rt + queued (t # ts) (Suc i) < unat len \<longrightarrow>
             (unat (trb_addr ((t # ts) ! i)) + unat (trb_buff_len ((t # ts) ! i))) mod 65536 = 0"
      using bd prems(4) by (simp add: All_less_Suc2 queued_simps t_def rt1 add.assoc)
    have c8: "z = 0 \<longrightarrow> (\<forall>i. Suc i < length (t # ts) \<longrightarrow> unat rt + queued (t # ts) (Suc i) < unat len)"
    proof (intro impI allI)
      fix i
      assume z0: "z = 0" and i: "Suc i < length (t # ts)"
      have Rpos: "0 < R"
      proof (rule ccontr)
        assume "\<not> 0 < R"
        with cR z0 have "Suc c = 1" by simp
        with False show False by simp
      qed
      show "unat rt + queued (t # ts) (Suc i) < unat len"
      proof (cases i)
        case 0
        then show ?thesis
          using Rpos by (simp add: queued_simps t_def R_def)
      next
        case (Suc k)
        have "z1 = 0" using z0 by (simp add: z1_def)
        with nf i Suc have "unat (rt + bl) + queued ts (Suc k) < unat len" by simp
        then show ?thesis
          by (simp add: Suc queued_simps t_def rt1 add.assoc)
      qed
    qed
    from e len_ts c1 c2 c3 c4 c5 c6 c7 c8 show ?thesis
      by (intro exI [of _ "t # ts"]) simp
  qed
qed

lemma bulk_max_packet_lt: "unat (bulk_max_packet u) < 65536"
proof -
  have a: "unat (ucast (wMaxPacketSize u) :: u32) < 65536"
    using unsigned_less [of "wMaxPacketSize u", where 'a = nat] by (simp add: unat_ucast_16_32)
  have "(ucast (wMaxPacketSize u) :: u32) AND 0x7ff \<le> ucast (wMaxPacketSize u)"
    by (rule word_and_le2)
  then have b: "unat ((ucast (wMaxPacketSize u) :: u32) AND 0x7ff) < 65536"
    using a by (simp add: word_le_nat_alt)
  show ?thesis
    using a b by (simp add: bulk_max_packet_def split: usb_speed.split)
qed

lemma to_boundary_aligned: "((a :: nat) + 65536 - a mod 65536) mod 65536 = 0"
proof -
  have "a mod 65536 \<le> a" by simp
  then have "a + 65536 - a mod 65536 = (a - a mod 65536) + 65536"
    by (simp only: Nat.add_diff_assoc2)
  also have "\<dots> = a div 65536 * 65536 + 65536"
    by (simp only: minus_mod_eq_div_mult)
  finally show ?thesis by simp
qed

lemma xhci_queue_bulk_tx_trbs_nat:
  fixes u :: urb and h :: xhci_h
  defines "len \<equiv> transfer_buffer_length u"
  assumes sg: "num_sgs u = 0" and L: "unat len < 2 ^ 31" and M0: "bulk_max_packet u \<noteq> 0"
  shows "\<exists>n ts. xhci_queue_bulk_tx_trbs h g u = Some (n, ts) \<and> length ts = unat n \<and>
          queued ts (length ts) = unat len \<and>
          (\<forall>i<length ts. trb_addr (ts ! i) = transfer_dma u + of_nat (queued ts i)) \<and>
          (\<forall>t\<in>set ts. unat (trb_addr t) mod 65536 + unat (trb_buff_len t) \<le> 65536) \<and>
          (\<forall>i<length ts. td_remainder (ts ! i) =
             (if queued ts (Suc i) = unat len then 0
              else push_bit 17 (of_nat (min 31
                     (packets_from (unat len) (unat (bulk_max_packet u)) (queued ts i)))))) \<and>
          (\<forall>i<length ts. trb_chain (ts ! i) \<longleftrightarrow> Suc i < length ts) \<and>
          (\<forall>t\<in>set ts. trb_idt t = (g \<and> \<not> ep_dir_in u)) \<and>
          (\<forall>i<length ts. queued ts (Suc i) < unat len \<longrightarrow>
             (unat (trb_addr (ts ! i)) + unat (trb_buff_len (ts ! i))) mod 65536 = 0) \<and>
          (transfer_flags u AND URB_ZERO_PACKET h = 0 \<or> len mod bulk_max_packet u \<noteq> 0 \<longrightarrow>
             (\<forall>i. Suc i < length ts \<longrightarrow> queued ts (Suc i) < unat len))"
proof -
  define b where "b = bytes_to_boundary (transfer_dma u)"
  define maxp where "maxp = bulk_max_packet u"
  define zlp where "zlp \<longleftrightarrow> transfer_flags u AND URB_ZERO_PACKET h \<noteq> 0 \<and> len mod maxp = 0"
  define z :: nat where "z = (if zlp then 1 else 0)"
  define k where "k = (unat len - unat b + 65535) div 65536"
  define N :: u32 where "N = (if zlp then 1 + of_nat k + 1 else 1 + of_nat k)"
  define bl where "bl = (if len < b then len else b)"
  have ub: "unat b = 65536 - unat (transfer_dma u) mod 65536"
    by (simp add: b_def bytes_to_boundary_unat)
  then have b0: "b \<noteq> 0"
    by (auto simp add: unat_eq_0 [symmetric])
  have cnt: "count_chunks_loop len 1 b = Some (1 + of_nat k)"
    unfolding k_def by (rule count_chunks_loop_nat [OF L])
  have kb: "k \<le> 32768"
    using L by (simp add: k_def)
  have uk: "unat (of_nat k :: u32) = k"
    using kb by (simp add: unat_of_nat take_bit_nat_eq_self)
  have uN: "unat N = 1 + k + z"
    using kb uk by (simp add: N_def z_def unat_word_ariths)
  have ubl: "unat bl = min (unat len) (unat b)"
    by (simp add: bl_def word_less_nat_alt min_def)
  have unf: "xhci_queue_bulk_tx_trbs h g u =
               map_option (Pair N) (bulk_tx_loop (g \<and> \<not> ep_dir_in u) len maxp N 0 (transfer_dma u) bl)"
    using sg b0 M0 cnt
    by (simp add: xhci_queue_bulk_tx_trbs_def Let_def len_def [symmetric] b_def [symmetric]
        maxp_def [symmetric] N_def zlp_def bl_def)
  have i2: "unat (0 :: u32) + unat bl \<le> unat len"
    by (simp add: ubl)
  have i3: "unat bl \<le> 65536 - unat (transfer_dma u) mod 65536"
    by (simp add: ubl ub)
  have i4: "unat (0 :: u32) + unat bl < unat len \<longrightarrow> (unat (transfer_dma u) + unat bl) mod 65536 = 0"
  proof
    assume "unat (0 :: u32) + unat bl < unat len"
    then have "unat bl = unat b" by (simp add: ubl min_def split: if_splits)
    then show "(unat (transfer_dma u) + unat bl) mod 65536 = 0"
      by (simp add: ub to_boundary_aligned)
  qed
  have i5: "1 + k + z = 1 + (unat len - (unat (0 :: u32) + unat bl) + 65535) div 65536 + z"
    by (simp add: k_def ubl min_def)
  have i6: "z \<le> 1"
    by (simp add: z_def)
  have M0': "maxp \<noteq> 0" and M: "unat maxp < 65536"
    using M0 bulk_max_packet_lt [of u] by (simp_all add: maxp_def)
  from bulk_tx_loop_nat [OF L M0' M uN i2 i3 i4 i5 i6, of "g \<and> \<not> ep_dir_in u"]
  obtain ts where ts: "bulk_tx_loop (g \<and> \<not> ep_dir_in u) len maxp N 0 (transfer_dma u) bl = Some ts"
    and rest: "length ts = 1 + k + z"
      "queued ts (length ts) = unat len - unat (0 :: u32)"
      "\<forall>i<length ts. trb_addr (ts ! i) = transfer_dma u + of_nat (queued ts i)"
      "\<forall>t\<in>set ts. unat (trb_addr t) mod 65536 + unat (trb_buff_len t) \<le> 65536"
      "\<forall>i<length ts. td_remainder (ts ! i) =
             (if unat (0 :: u32) + queued ts (Suc i) = unat len then 0
              else push_bit 17 (of_nat (min 31
                     (packets_from (unat len) (unat maxp) (unat (0 :: u32) + queued ts i)))))"
      "\<forall>i<length ts. trb_chain (ts ! i) \<longleftrightarrow> Suc i < length ts"
      "\<forall>t\<in>set ts. trb_idt t = (g \<and> \<not> ep_dir_in u)"
      "\<forall>i<length ts. unat (0 :: u32) + queued ts (Suc i) < unat len \<longrightarrow>
             (unat (trb_addr (ts ! i)) + unat (trb_buff_len (ts ! i))) mod 65536 = 0"
      "z = 0 \<longrightarrow> (\<forall>i. Suc i < length ts \<longrightarrow> unat (0 :: u32) + queued ts (Suc i) < unat len)"
    by blast
  have "z = 0" if "transfer_flags u AND URB_ZERO_PACKET h = 0 \<or> len mod maxp \<noteq> 0"
    using that by (auto simp add: z_def zlp_def)
  with rest show ?thesis
    unfolding maxp_def [symmetric]
    by (intro exI [of _ N] exI [of _ ts]) (simp add: unf ts uN)
qed

lemma queued_add: "queued ts (i + k) = queued ts i + queued (drop i ts) k"
  by (simp add: queued_def take_add)

lemma queued_mono: "i \<le> j \<Longrightarrow> queued ts i \<le> queued ts j"
  using queued_add [of ts i "j - i"] by simp

lemma queued_le_total: "queued ts i \<le> queued ts (length ts)"
proof (cases "i \<le> length ts")
  case True
  then show ?thesis by (rule queued_mono)
next
  case False
  then show ?thesis by (simp add: queued_def)
qed

lemma packets_from_pos:
  assumes "q < len" and "0 < maxp"
  shows "0 < packets_from len maxp q"
proof -
  have "q div maxp \<le> (len - 1) div maxp"
    using assms(1) by (intro div_le_mono) simp
  moreover have "(len - 1 + maxp) div maxp = (len - 1) div maxp + 1"
    by (rule div_add_self2) (use assms(2) in simp)
  moreover have "len + maxp - 1 = len - 1 + maxp"
    using assms(1) by simp
  ultimately show ?thesis
    by (simp add: packets_from_def)
qed

lemma packets_from_antimono:
  "q \<le> q' \<Longrightarrow> packets_from len maxp q' \<le> packets_from len maxp q"
  by (simp add: packets_from_def div_le_mono diff_le_mono2)

lemma unat_td_size:
  assumes "m \<le> 31"
  shows "unat (push_bit 17 (of_nat m :: u32)) = m * 131072"
proof -
  have b: "m * 131072 < 4294967296"
    using assms by simp
  have "unat (of_nat (m * 131072) :: u32) = m * 131072"
    by (subst unat_of_nat) (use b in simp)
  moreover have "push_bit 17 (of_nat m :: u32) = of_nat (m * 131072)"
    by (simp add: push_bit_eq_mult)
  ultimately show ?thesis
    by (simp only:)
qed

lemma to_boundary_bounds: "0 < to_boundary a" "to_boundary a \<le> 65536"
  by (simp_all add: to_boundary_def)

lemma bytes_to_boundary_nat: "unat (bytes_to_boundary a) = to_boundary (unat a)"
  by (simp add: bytes_to_boundary_unat to_boundary_def)

lemma chunks_pos: "1 \<le> chunks a s"
  by (simp add: chunks_def)

lemma chunks_one: "s \<le> to_boundary a \<Longrightarrow> chunks a s = 1"
  by (simp add: chunks_def)

lemma ceil64_step:
  assumes "0 < (x :: nat)"
  shows "(x + 65535) div 65536 = 1 + (x - 65536 + 65535) div 65536"
proof (cases "65536 \<le> x")
  case True
  then obtain k where k: "x = k + 65536"
    by (metis le_add_diff_inverse2)
  have "(k + 65535 + 65536) div 65536 = (k + 65535) div 65536 + 1"
    by (rule div_add_self2) simp
  then show ?thesis
    by (simp add: k add.commute add.left_commute)
next
  case False
  have "(x + 65535) div 65536 = 1"
    using False assms by (intro div_nat_eqI) simp_all
  then show ?thesis
    using False by simp
qed

lemma chunks_step:
  assumes "to_boundary a < s" and "a' mod 65536 = 0"
  shows "chunks a s = 1 + chunks a' (s - to_boundary a)"
proof -
  have "to_boundary a' = 65536"
    using assms(2) by (simp add: to_boundary_def)
  then show ?thesis
    using ceil64_step [of "s - to_boundary a"] assms(1) by (simp add: chunks_def)
qed

lemma chunks_mono: "s \<le> s' \<Longrightarrow> chunks a s \<le> chunks a s'"
  unfolding chunks_def by (intro add_left_mono div_le_mono add_right_mono diff_le_mono)

lemma chunks_bound: "s < 2 ^ 31 \<Longrightarrow> chunks a s \<le> 32769"
  by (simp add: chunks_def)

lemma sg_count_bound:
  "\<forall>(a, l)\<in>set sgs. unat l < 2 ^ 31 \<Longrightarrow> sg_count sgs t \<le> length sgs * 32769"
proof (induction sgs arbitrary: t)
  case Nil
  then show ?case by simp
next
  case (Cons x sgs)
  obtain a l where x: "x = (a, l)" by (cases x)
  have "chunks (unat a) (unat l) \<le> 32769"
    using Cons.prems by (intro chunks_bound) (simp add: x)
  moreover have "sg_count sgs (t - unat l) \<le> length sgs * 32769"
    using Cons.prems by (intro Cons.IH) simp
  ultimately show ?case
    by (simp add: x)
qed

lemma sless_min_32:
  assumes "unat (a :: u32) < 2 ^ 31" and "unat (b :: u32) < 2 ^ 31"
  shows "unat (if a <s b then a else b) = min (unat a) (unat b)"
  using sless_unat_32 [OF assms] by (simp add: min_def)

lemma count_sg_loop_nat:
  "\<forall>(a, l)\<in>set sgl. unat l < 2 ^ 31 \<Longrightarrow> unat temp < 2 ^ 31 \<Longrightarrow> unat n = length sgl \<Longrightarrow>
   length sgl < 2 ^ 31 \<Longrightarrow>
   count_sg_loop sgl n acc temp = Some (acc + of_nat (sg_count sgl (unat temp)))"
proof (induction sgl arbitrary: n acc temp)
  case Nil
  then have "n = 0" by (simp add: unat_eq_0)
  then show ?case by simp
next
  case (Cons x sgs)
  obtain a l where x: "x = (a, l)" by (cases x)
  have l: "unat l < 2 ^ 31"
    using Cons.prems(1) by (simp add: x)
  have "unat (0 :: u32) < 2 ^ 31" "unat n < 2 ^ 31"
    using Cons.prems(3,4) by simp_all
  from sless_unat_32 [OF this] have pos: "0 <s n"
    using Cons.prems(3) by simp
  have b0: "bytes_to_boundary a \<noteq> 0"
    using to_boundary_bounds(1) [of "unat a"]
    by (auto simp add: bytes_to_boundary_nat [symmetric])
  have cc: "count_chunks_loop l (acc + 1) (bytes_to_boundary a) =
              Some (acc + of_nat (chunks (unat a) (unat l)))"
    by (simp add: count_chunks_loop_nat [OF l] chunks_def bytes_to_boundary_nat add.assoc)
  have mn: "unat (if l <s temp then l else temp) = min (unat l) (unat temp)"
    by (rule sless_min_32 [OF l Cons.prems(2)])
  have "(if l <s temp then l else temp) \<le> temp"
    by (simp add: word_le_nat_alt mn)
  then have t1: "unat (temp - (if l <s temp then l else temp)) = unat temp - min (unat l) (unat temp)"
    by (simp add: unat_sub mn)
  have z: "temp - (if l <s temp then l else temp) = 0 \<longleftrightarrow> unat temp \<le> unat l"
    using t1 by (auto simp add: unat_eq_0 [symmetric] min_def split: if_splits)
  show ?case
  proof (cases "unat temp \<le> unat l")
    case True
    then show ?thesis
      using pos b0 z by (simp add: x cc Let_def)
  next
    case False
    have n0: "n \<noteq> 0"
      using Cons.prems(3) by auto
    have n1: "unat (n - 1) = length sgs"
      using Cons.prems(3) n0 by (simp add: unat_minus_one)
    have t2: "unat (temp - (if l <s temp then l else temp)) = unat temp - unat l"
      using t1 False by (simp add: min_def)
    have "count_sg_loop sgs (n - 1) (acc + of_nat (chunks (unat a) (unat l)))
            (temp - (if l <s temp then l else temp)) =
          Some (acc + of_nat (chunks (unat a) (unat l)) +
                of_nat (sg_count sgs (unat (temp - (if l <s temp then l else temp)))))"
    proof (rule Cons.IH)
      show "\<forall>(a, l)\<in>set sgs. unat l < 2 ^ 31"
        using Cons.prems(1) by simp
      show "unat (temp - (if l <s temp then l else temp)) < 2 ^ 31"
        using Cons.prems(2) by (simp add: t2)
      show "unat (n - 1) = length sgs"
        by (rule n1)
      show "length sgs < 2 ^ 31"
        using Cons.prems(4) by simp
    qed
    then show ?thesis
      using pos b0 z False by (simp add: x cc Let_def t2 add.assoc)
  qed
qed

lemma sg_next_len:
  fixes a :: u64 and s rt len :: u32
  assumes L: "unat len < 2 ^ 31" and rt: "unat rt \<le> unat len" and s: "unat s < 2 ^ 31"
  defines "b \<equiv> bytes_to_boundary a"
  defines "l1 \<equiv> (if b <s s then b else s)"
  shows "unat (if rt + l1 > len then len - rt else l1) =
           min (min (to_boundary (unat a)) (unat s)) (unat len - unat rt)"
proof -
  have bb: "unat b < 2 ^ 31"
    using to_boundary_bounds(2) [of "unat a"] by (simp add: b_def bytes_to_boundary_nat)
  have l1: "unat l1 = min (to_boundary (unat a)) (unat s)"
    unfolding l1_def using sless_min_32 [OF bb s] by (simp add: b_def bytes_to_boundary_nat)
  have "unat l1 \<le> 65536"
    using to_boundary_bounds(2) [of "unat a"] by (simp add: l1)
  then have sum: "unat (rt + l1) = unat rt + unat l1"
    using L rt by (simp add: unat_word_ariths)
  have "rt \<le> len"
    using rt by (simp add: word_le_nat_alt)
  then have d: "unat (len - rt) = unat len - unat rt"
    by (simp add: unat_sub)
  show ?thesis
    using rt by (auto simp add: word_less_nat_alt sum d l1 min_def)
qed

lemma sg_bytes_simps:
  "sg_bytes [] = 0"
  "sg_bytes ((a, l) # sgs) = unat l + sg_bytes sgs"
  by (simp_all add: sg_bytes_def)

lemma bulk_sg_loop_nat:
  fixes len maxp :: u32
  assumes L: "unat len < 2 ^ 31" and M0: "maxp \<noteq> 0" and M: "unat maxp < 65536"
  shows "\<lbrakk>unat N = c; c < 2 ^ 31; unat rt \<le> unat len; unat s < 2 ^ 31;
          \<forall>(a, l)\<in>set sgs. unat l < 2 ^ 31; unat nsg = Suc (length sgs);
          unat bl = min (min (to_boundary (unat a)) (unat s)) (unat len - unat rt);
          unat len - unat rt \<le> unat s + sg_bytes sgs;
          unat rt + unat s \<le> unat len \<longrightarrow>
            c = chunks (unat a) (unat s) +
                (if unat rt + unat s = unat len then 0
                 else sg_count sgs (unat len - (unat rt + unat s)));
          unat len < unat rt + unat s \<longrightarrow>
            1 \<le> c \<and> (unat rt < unat len \<longrightarrow> chunks (unat a) (unat len - unat rt) \<le> c)\<rbrakk>
    \<Longrightarrow> \<exists>ts fa. bulk_sg_loop len maxp zlp N nsg sgs rt a s bl = Some (ts, fa) \<and>
          (\<forall>t\<in>set ts. unat (trb_addr t) mod 65536 + unat (trb_buff_len t) \<le> 65536) \<and>
          sum_list (map (\<lambda>t. unat (trb_buff_len t)) ts) = unat len - unat rt \<and>
          (\<forall>i<length ts. td_remainder (ts ! i) =
             (if unat rt + queued ts (Suc i) = unat len then 0
              else push_bit 17 (of_nat (min 31
                     (packets_from (unat len) (unat maxp) (unat rt + queued ts i)))))) \<and>
          (unat len - unat rt = unat s + sg_bytes sgs \<and> 0 < unat s \<and> (\<forall>(a, l)\<in>set sgs. 0 < unat l) \<longrightarrow>
             (\<forall>i. Suc i < length ts \<longrightarrow> unat rt + queued ts (Suc i) < unat len))"
proof (induction c arbitrary: N nsg sgs rt a s bl)
  case 0
  then show ?case
    using chunks_pos [of "unat a" "unat s"] by (cases "unat rt + unat s \<le> unat len") auto
next
  case (Suc c)
  note prems = Suc.prems
  let ?R = "\<lambda>(r2 :: u32) ts. \<forall>i<length ts. td_remainder (ts ! i) =
             (if unat r2 + queued ts (Suc i) = unat len then 0
              else push_bit 17 (of_nat (min 31
                     (packets_from (unat len) (unat maxp) (unat r2 + queued ts i)))))"
  let ?E = "\<lambda>(r2 :: u32) (s2 :: u32) (sg2 :: (u64 \<times> u32) list).
          unat len - unat r2 = unat s2 + sg_bytes sg2 \<and> 0 < unat s2 \<and> (\<forall>(a, l)\<in>set sg2. 0 < unat l)"
  let ?Q = "\<lambda>(r2 :: u32) (ts :: bulk_trb list).
          \<forall>i. Suc i < length ts \<longrightarrow> unat r2 + queued ts (Suc i) < unat len"
  let ?P = "\<lambda>ts. (\<forall>t\<in>set ts. unat (trb_addr t) mod 65536 + unat (trb_buff_len t) \<le> 65536) \<and>
          sum_list (map (\<lambda>t. unat (trb_buff_len t)) ts) = unat len - unat rt \<and>
          ?R rt ts \<and> (?E rt s sgs \<longrightarrow> ?Q rt ts)"
  have blb: "unat bl \<le> to_boundary (unat a)" and bls: "unat bl \<le> unat s"
    and bll: "unat bl \<le> unat len - unat rt"
    using prems(7) by simp_all
  have bl64: "unat bl \<le> 65536"
    using blb to_boundary_bounds(2) [of "unat a"] by simp
  have le: "unat rt + unat bl \<le> unat len"
    using bll prems(3) by simp
  define r where "r = (if unat rt + unat bl = unat len then 0
     else push_bit 17 (of_nat (min 31 (packets_from (unat len) (unat maxp) (unat rt)))) :: u32)"
  have rem: "xhci_td_remainder len rt maxp bl = Some r"
    unfolding r_def packets_from_def by (rule xhci_td_remainder_nat [OF L M0 M le])
  define t where "t = \<lparr>trb_addr = a, trb_buff_len = bl, td_remainder = r,
                         trb_chain = (1 < N \<or> zlp), trb_idt = False\<rparr>"
  have t_ok: "unat (trb_addr t) mod 65536 + unat (trb_buff_len t) \<le> 65536"
    using blb by (simp add: t_def to_boundary_def)
  have N0: "N \<noteq> 0"
    using prems(1) by auto
  have n1: "unat (N - 1) = c"
    using prems(1) N0 by (simp add: unat_minus_one)
  have cb: "c < 2 ^ 31"
    using prems(2) by simp
  have cont: "0 < N - 1 \<longleftrightarrow> 0 < c"
    using n1 by (simp add: word_less_nat_alt)
  have rt1: "unat (rt + bl) = unat rt + unat bl"
    using L le by (simp add: unat_word_ariths)
  have rt1le: "unat (rt + bl) \<le> unat len"
    using le by (simp add: rt1)
  have "bl \<le> s"
    using bls by (simp add: word_le_nat_alt)
  then have s1: "unat (s - bl) = unat s - unat bl"
    by (simp add: unat_sub)
  have s1z: "s - bl = 0 \<longleftrightarrow> unat s = unat bl"
    using s1 bls by (auto simp add: unat_eq_0 [symmetric])
  have nsg0: "nsg \<noteq> 0"
    using prems(6) by auto
  have nsg1: "unat (nsg - 1) = length sgs"
    using prems(6) nsg0 by (simp add: unat_minus_one)
  have nsgz: "nsg - 1 = 0 \<longleftrightarrow> sgs = []"
    using nsg1 by (auto simp add: unat_eq_0 [symmetric])
  have sc: "(scast bl :: u64) = ucast bl"
    using bl64 by (intro scast_ucast_32_64) simp
  have a1: "unat (a + ucast bl) = (unat a + unat bl) mod 2 ^ 64"
    by (simp add: unat_word_ariths unat_ucast_32_64)
  have a1m: "unat (a + ucast bl) mod 65536 = (unat a + unat bl) mod 65536"
    unfolding a1 by (rule mod_mod_cancel) simp
  define nl where "nl a1 s2 =
     (let b = bytes_to_boundary a1;
          l1 = (if b <s s2 then b else s2)
      in if rt + bl + l1 > len then len - (rt + bl) else l1)" for a1 s2
  have nl: "unat (nl a1 s2) = min (min (to_boundary (unat a1)) (unat s2)) (unat len - unat (rt + bl))"
    if "unat s2 < 2 ^ 31" for a1 s2
    unfolding nl_def Let_def using sg_next_len [OF L rt1le that, of a1] by simp
  define K0 where "K0 = (\<lambda>num_sgs1 sgs1 addr1 this_sg_len2.
                let b = bytes_to_boundary addr1;
                    l1 = (if b <s this_sg_len2 then b else this_sg_len2);
                    l2 = (if rt + bl + l1 > len then len - (rt + bl) else l1)
                in if 0 < N - 1
                   then map_option (\<lambda>(ts, a). (t # ts, a))
                          (bulk_sg_loop len maxp zlp (N - 1) num_sgs1 sgs1 (rt + bl)
                             addr1 this_sg_len2 l2)
                   else Some ([t], addr1))"
  define K where "K ng sg1 a1 s2 =
     (if 0 < c then map_option (\<lambda>(ts, fa). (t # ts, fa))
                      (bulk_sg_loop len maxp zlp (N - 1) ng sg1 (rt + bl) a1 s2 (nl a1 s2))
      else Some ([t], a1))" for ng sg1 a1 s2
  have unf0: "bulk_sg_loop len maxp zlp N nsg sgs rt a s bl =
      (if s - bl = 0 then
         (if nsg - 1 = 0 then Some ([t], a)
          else (case sgs of [] \<Rightarrow> None | (a2, l2) # sgs1 \<Rightarrow> K0 (nsg - 1) sgs1 a2 l2))
       else K0 nsg sgs (a + scast bl) (s - bl))"
    by (subst bulk_sg_loop.simps) (simp only: rem option.case Let_def K0_def t_def)
  have K0: "K0 ng sg1 a1 s2 = K ng sg1 a1 s2" for ng sg1 a1 s2
    unfolding K0_def K_def nl_def Let_def by (simp only: cont)
  have unf: "bulk_sg_loop len maxp zlp N nsg sgs rt a s bl =
      (if unat s = unat bl then
         (if sgs = [] then Some ([t], a)
          else (case sgs of [] \<Rightarrow> None | (a2, l2) # sgs1 \<Rightarrow> K (nsg - 1) sgs1 a2 l2))
       else K nsg sgs (a + ucast bl) (s - bl))"
    by (simp only: unf0 K0 s1z nsgz sc)
  have step: "\<exists>ts fa. K ng sg1 a1 s2 = Some (ts, fa) \<and> ?P ts"
    if s2: "unat s2 < 2 ^ 31" and sg1: "\<forall>(a, l)\<in>set sg1. unat l < 2 ^ 31"
      and ng: "unat ng = Suc (length sg1)"
      and en: "unat len - unat (rt + bl) \<le> unat s2 + sg_bytes sg1"
      and fin: "c = 0 \<Longrightarrow> unat (rt + bl) = unat len"
      and pa: "0 < c \<Longrightarrow> unat (rt + bl) + unat s2 \<le> unat len \<Longrightarrow>
                 c = chunks (unat a1) (unat s2) +
                     (if unat (rt + bl) + unat s2 = unat len then 0
                      else sg_count sg1 (unat len - (unat (rt + bl) + unat s2)))"
      and pb: "0 < c \<Longrightarrow> unat len < unat (rt + bl) + unat s2 \<Longrightarrow> unat (rt + bl) < unat len \<Longrightarrow>
                 chunks (unat a1) (unat len - unat (rt + bl)) \<le> c"
      and ex: "0 < c \<Longrightarrow> ?E rt s sgs \<Longrightarrow> ?E (rt + bl) s2 sg1"
    for ng sg1 a1 s2
  proof (cases "c = 0")
    case True
    from fin [OF True] have "unat bl = unat len - unat rt"
      by (simp add: rt1)
    then show ?thesis
      using True t_ok le by (simp add: K_def t_def r_def queued_simps)
  next
    case False
    have "\<exists>ts fa. bulk_sg_loop len maxp zlp (N - 1) ng sg1 (rt + bl) a1 s2 (nl a1 s2) = Some (ts, fa) \<and>
          (\<forall>t\<in>set ts. unat (trb_addr t) mod 65536 + unat (trb_buff_len t) \<le> 65536) \<and>
          sum_list (map (\<lambda>t. unat (trb_buff_len t)) ts) = unat len - unat (rt + bl) \<and>
          ?R (rt + bl) ts \<and> (?E (rt + bl) s2 sg1 \<longrightarrow> ?Q (rt + bl) ts)"
    proof (rule Suc.IH [OF n1 cb rt1le s2 sg1 ng nl [OF s2] en])
      show "unat (rt + bl) + unat s2 \<le> unat len \<longrightarrow>
            c = chunks (unat a1) (unat s2) +
                (if unat (rt + bl) + unat s2 = unat len then 0
                 else sg_count sg1 (unat len - (unat (rt + bl) + unat s2)))"
        using pa False by simp
      show "unat len < unat (rt + bl) + unat s2 \<longrightarrow>
            1 \<le> c \<and> (unat (rt + bl) < unat len \<longrightarrow> chunks (unat a1) (unat len - unat (rt + bl)) \<le> c)"
        using pb False by simp
    qed
    then obtain ts fa where
      r: "bulk_sg_loop len maxp zlp (N - 1) ng sg1 (rt + bl) a1 s2 (nl a1 s2) = Some (ts, fa)"
      and rg: "\<forall>t\<in>set ts. unat (trb_addr t) mod 65536 + unat (trb_buff_len t) \<le> 65536"
      and sm: "sum_list (map (\<lambda>t. unat (trb_buff_len t)) ts) = unat len - unat (rt + bl)"
      and rm: "?R (rt + bl) ts"
      and nf: "?E (rt + bl) s2 sg1 \<longrightarrow> ?Q (rt + bl) ts"
      by blast
    have "K ng sg1 a1 s2 = Some (t # ts, fa)"
      using False by (simp add: K_def r)
    moreover have "(\<forall>x\<in>set (t # ts). unat (trb_addr x) mod 65536 + unat (trb_buff_len x) \<le> 65536) \<and>
          sum_list (map (\<lambda>t. unat (trb_buff_len t)) (t # ts)) = unat len - unat rt"
      using rg sm t_ok le by (simp add: rt1 t_def)
    moreover have "?R rt (t # ts)"
      using rm by (simp add: All_less_Suc2 queued_simps t_def r_def rt1 add.assoc)
    moreover have "?E rt s sgs \<longrightarrow> ?Q rt (t # ts)"
    proof (intro impI allI)
      fix i
      assume E: "?E rt s sgs" and i: "Suc i < length (t # ts)"
      from False have c0: "0 < c" by simp
      from ex [OF c0 E] have E1: "?E (rt + bl) s2 sg1" .
      then have more: "unat rt + unat bl < unat len"
        unfolding rt1 by linarith
      show "unat rt + queued (t # ts) (Suc i) < unat len"
      proof (cases i)
        case 0
        then show ?thesis
          using more by (simp add: queued_simps t_def)
      next
        case (Suc k)
        with nf E1 i have "unat (rt + bl) + queued ts (Suc k) < unat len" by simp
        then show ?thesis
          by (simp add: Suc queued_simps t_def rt1 add.assoc)
      qed
    qed
    ultimately show ?thesis
      by blast
  qed
  show ?case
  proof (cases "unat rt + unat s \<le> unat len")
    case A: True
    then have cA: "Suc c = chunks (unat a) (unat s) +
                (if unat rt + unat s = unat len then 0
                 else sg_count sgs (unat len - (unat rt + unat s)))"
      using prems(9) by simp
    have "unat s \<le> unat len - unat rt"
      using A by simp
    then have "min (to_boundary (unat a)) (unat s) \<le> unat len - unat rt"
      by (rule min.coboundedI2)
    then have blA: "unat bl = min (to_boundary (unat a)) (unat s)"
      by (simp only: prems(7) min.absorb1)
    show ?thesis
    proof (cases "unat s = unat bl")
      case ended: True
      then have one: "chunks (unat a) (unat s) = 1"
        using blb by (intro chunks_one) simp
      show ?thesis
      proof (cases sgs)
        case Nil
        have "unat bl = unat len - unat rt"
          using prems(8) A ended by (simp add: Nil sg_bytes_simps)
        then show ?thesis
          unfolding unf using t_ok le by (simp add: ended Nil t_def r_def queued_simps)
      next
        case (Cons x sgs1)
        obtain a2 l2 where x: "x = (a2, l2)" by (cases x)
        have l2: "unat l2 < 2 ^ 31" and sg1: "\<forall>(a, l)\<in>set sgs1. unat l < 2 ^ 31"
          using prems(5) by (simp_all add: Cons x)
        have ng: "unat (nsg - 1) = Suc (length sgs1)"
          using nsg1 by (simp add: Cons)
        have en: "unat len - unat (rt + bl) \<le> unat l2 + sg_bytes sgs1"
          using prems(8) ended by (simp add: rt1 Cons x sg_bytes_simps)
        have cval: "c = (if unat rt + unat s = unat len then 0
                         else sg_count sgs (unat len - (unat rt + unat s)))"
          using cA one by simp
        have "\<exists>ts fa. K (nsg - 1) sgs1 a2 l2 = Some (ts, fa) \<and> ?P ts"
        proof (rule step [OF l2 sg1 ng en])
          assume "c = 0"
          with cval have "unat rt + unat s = unat len \<or>
              sg_count sgs (unat len - (unat rt + unat s)) = 0"
            by (simp split: if_splits)
          moreover have "sg_count sgs (unat len - (unat rt + unat s)) \<noteq> 0"
            using chunks_pos [of "unat a2" "unat l2"] by (simp add: Cons x)
          ultimately show "unat (rt + bl) = unat len"
            using ended by (simp add: rt1)
        next
          assume c0: "0 < c" and "unat (rt + bl) + unat l2 \<le> unat len"
          then show "c = chunks (unat a2) (unat l2) +
                     (if unat (rt + bl) + unat l2 = unat len then 0
                      else sg_count sgs1 (unat len - (unat (rt + bl) + unat l2)))"
            using cval ended by (auto simp add: rt1 Cons x split: if_splits)
        next
          assume c0: "0 < c" and B: "unat len < unat (rt + bl) + unat l2"
            and "unat (rt + bl) < unat len"
          then have "c = chunks (unat a2) (unat l2)"
            using cval ended by (auto simp add: rt1 Cons x split: if_splits)
          moreover have "chunks (unat a2) (unat len - unat (rt + bl)) \<le> chunks (unat a2) (unat l2)"
            using B by (intro chunks_mono) simp
          ultimately show "chunks (unat a2) (unat len - unat (rt + bl)) \<le> c"
            by simp
        next
          assume "?E rt s sgs"
          then show "?E (rt + bl) l2 sgs1"
            using ended le by (auto simp add: rt1 Cons x sg_bytes_simps)
        qed
        then show ?thesis
          unfolding unf by (simp add: ended Cons x)
      qed
    next
      case remains: False
      then have lt: "unat bl < unat s"
        using bls by simp
      then have bt: "unat bl = to_boundary (unat a)"
        using blA by (simp add: min_def split: if_splits)
      have al: "unat (a + ucast bl) mod 65536 = 0"
        unfolding a1m bt to_boundary_def using to_boundary_aligned [of "unat a"] by simp
      have st: "chunks (unat a) (unat s) = 1 + chunks (unat (a + ucast bl)) (unat s - unat bl)"
        using chunks_step [of "unat a" "unat s", OF _ al] lt by (simp add: bt)
      have s2: "unat (s - bl) < 2 ^ 31"
        using prems(4) by (simp add: s1)
      have en: "unat len - unat (rt + bl) \<le> unat (s - bl) + sg_bytes sgs"
        using prems(8) lt by (simp add: rt1 s1)
      have same: "unat (rt + bl) + unat (s - bl) = unat rt + unat s"
        using lt by (simp add: rt1 s1)
      have "\<exists>ts fa. K nsg sgs (a + ucast bl) (s - bl) = Some (ts, fa) \<and> ?P ts"
      proof (rule step [OF s2 prems(5) prems(6) en])
        assume "c = 0"
        then show "unat (rt + bl) = unat len"
          using cA st chunks_pos [of "unat (a + ucast bl)" "unat s - unat bl"] by simp
      next
        assume "0 < c" and "unat (rt + bl) + unat (s - bl) \<le> unat len"
        then show "c = chunks (unat (a + ucast bl)) (unat (s - bl)) +
                     (if unat (rt + bl) + unat (s - bl) = unat len then 0
                      else sg_count sgs (unat len - (unat (rt + bl) + unat (s - bl))))"
          unfolding same using cA st by (simp add: s1)
      next
        assume "unat len < unat (rt + bl) + unat (s - bl)"
        then show "chunks (unat (a + ucast bl)) (unat len - unat (rt + bl)) \<le> c"
          unfolding same using A by simp
      next
        assume "?E rt s sgs"
        then show "?E (rt + bl) (s - bl) sgs"
          using lt le by (auto simp add: rt1 s1)
      qed
      then show ?thesis
        using remains by (simp add: unf)
    qed
  next
    case B: False
    then have cB: "1 \<le> Suc c"
      and nd: "unat rt < unat len \<Longrightarrow> chunks (unat a) (unat len - unat rt) \<le> Suc c"
      using prems(10) by simp_all
    have "unat len - unat rt \<le> unat s"
      using B by simp
    then have blB: "unat bl = min (to_boundary (unat a)) (unat len - unat rt)"
      by (simp only: prems(7) min.assoc min.absorb2)
    have lt: "unat bl < unat s"
      using bll B prems(3) by linarith
    have s2: "unat (s - bl) < 2 ^ 31"
      using prems(4) by (simp add: s1)
    have en: "unat len - unat (rt + bl) \<le> unat (s - bl) + sg_bytes sgs"
      using prems(8) lt by (simp add: rt1 s1)
    have same: "unat (rt + bl) + unat (s - bl) = unat rt + unat s"
      using lt by (simp add: rt1 s1)
    have "\<exists>ts fa. K nsg sgs (a + ucast bl) (s - bl) = Some (ts, fa) \<and> ?P ts"
    proof (rule step [OF s2 prems(5) prems(6) en])
      assume c0: "c = 0"
      show "unat (rt + bl) = unat len"
      proof (cases "unat rt < unat len")
        case True
        from nd [OF True] c0 have "chunks (unat a) (unat len - unat rt) \<le> 1"
          by simp
        then have "unat len - unat rt \<le> to_boundary (unat a)"
          unfolding chunks_def by (simp add: div_eq_0_iff)
        then show ?thesis
          using True by (simp add: rt1 blB)
      next
        case False
        then show ?thesis
          using prems(3) by (simp add: rt1 blB)
      qed
    next
      assume "unat (rt + bl) + unat (s - bl) \<le> unat len"
      then show "c = chunks (unat (a + ucast bl)) (unat (s - bl)) +
                     (if unat (rt + bl) + unat (s - bl) = unat len then 0
                      else sg_count sgs (unat len - (unat (rt + bl) + unat (s - bl))))"
        unfolding same using B by simp
    next
      assume c0: "0 < c" and more: "unat (rt + bl) < unat len"
      then have rl: "unat rt < unat len"
        by (simp add: rt1)
      have bt: "unat bl = to_boundary (unat a)" and big: "to_boundary (unat a) < unat len - unat rt"
        using more blB by (simp_all add: rt1 min_def split: if_splits)
      have al: "unat (a + ucast bl) mod 65536 = 0"
        unfolding a1m bt to_boundary_def using to_boundary_aligned [of "unat a"] by simp
      have "chunks (unat a) (unat len - unat rt) =
              1 + chunks (unat (a + ucast bl)) (unat len - unat rt - to_boundary (unat a))"
        by (rule chunks_step [OF big al])
      with nd [OF rl] show "chunks (unat (a + ucast bl)) (unat len - unat (rt + bl)) \<le> c"
        by (simp add: rt1 bt)
    next
      assume "?E rt s sgs"
      then have "unat rt + unat s \<le> unat len"
        using prems(3) by linarith
      with B show "?E (rt + bl) (s - bl) sgs"
        by simp
    qed
    then show ?thesis
      using lt by (simp add: unf)
  qed
qed

lemma sg_max_packet_bulk:
  "bulk_max_packet u \<noteq> 0 \<Longrightarrow> sg_max_packet u = Some (bulk_max_packet u)"
  by (simp add: sg_max_packet_def bulk_max_packet_def split: usb_speed.splits)

lemma queue_bulk_sg_tx_trbs_nat:
  fixes u :: urb and h :: xhci_h
  defines "len \<equiv> transfer_buffer_length u"
  assumes L: "unat len < 2 ^ 31" and M0: "bulk_max_packet u \<noteq> 0" and ok: "sg_list_ok u"
  shows "\<exists>n ts. queue_bulk_sg_tx_trbs h u = Some (n, ts) \<and>
          (\<forall>t\<in>set ts. unat (trb_addr t) mod 65536 + unat (trb_buff_len t) \<le> 65536) \<and>
          sum_list (map (\<lambda>t. unat (trb_buff_len t)) ts) = unat len \<and>
          (transfer_flags u AND URB_ZERO_PACKET h = 0 \<or> len mod bulk_max_packet u \<noteq> 0 \<longrightarrow>
             (\<forall>i<length ts. td_remainder (ts ! i) =
                (if queued ts (Suc i) = unat len then 0
                 else push_bit 17 (of_nat (min 31
                        (packets_from (unat len) (unat (bulk_max_packet u)) (queued ts i)))))) \<and>
             (sg_bytes (sg u) = unat len \<and> (\<forall>(a, l)\<in>set (sg u). 0 < unat l) \<longrightarrow>
                (\<forall>i. Suc i < length ts \<longrightarrow> queued ts (Suc i) < unat len)))"
proof -
  from ok obtain a l sgs where sg: "sg u = (a, l) # sgs"
    and ns: "unat (num_sgs u) = Suc (length sgs)"
    and nb: "length ((a, l) # sgs) < 32768"
    and ls: "\<forall>(a, l)\<in>set ((a, l) # sgs). unat l < 2 ^ 31"
    and en: "unat len \<le> unat l + sg_bytes sgs"
    by (cases "sg u") (auto simp add: sg_list_ok_def len_def sg_bytes_simps)
  define maxp where "maxp = bulk_max_packet u"
  define zlp where "zlp \<longleftrightarrow> transfer_flags u AND URB_ZERO_PACKET h \<noteq> 0 \<and> len mod maxp = 0"
  define c where "c = sg_count ((a, l) # sgs) (unat len)"
  define N :: u32 where "N = of_nat c"
  have l: "unat l < 2 ^ 31" and ls': "\<forall>(a, l)\<in>set sgs. unat l < 2 ^ 31"
    using ls by simp_all
  have "c \<le> length ((a, l) # sgs) * 32769"
    unfolding c_def by (rule sg_count_bound [OF ls])
  also have "\<dots> < 32768 * 32769"
    using nb by (intro mult_strict_right_mono) simp_all
  finally have cb: "c < 2 ^ 31"
    by simp
  then have uN: "unat N = c"
    by (simp add: N_def unat_of_nat take_bit_nat_eq_self)
  have cnt: "count_sg_trbs_needed u = Some N"
    unfolding count_sg_trbs_needed_def sg len_def [symmetric] N_def c_def
    using count_sg_loop_nat [OF ls L, of "num_sgs u" 0] ns nb by simp
  have mp: "sg_max_packet u = Some maxp"
    unfolding maxp_def by (rule sg_max_packet_bulk [OF M0])
  define bl where "bl = (let b = bytes_to_boundary a; l1 = (if b <s l then b else l)
                         in if l1 > len then len else l1)"
  have "bl = (if len < 0 + (if bytes_to_boundary a <s l then bytes_to_boundary a else l)
              then len - 0 else (if bytes_to_boundary a <s l then bytes_to_boundary a else l))"
    unfolding bl_def Let_def by simp
  then have ubl: "unat bl = min (min (to_boundary (unat a)) (unat l)) (unat len - unat (0 :: u32))"
    by (simp only:) (rule sg_next_len [OF L _ l], simp)
  have M0': "maxp \<noteq> 0" and M: "unat maxp < 65536"
    using M0 bulk_max_packet_lt [of u] by (simp_all add: maxp_def)
  have "\<exists>ts fa. bulk_sg_loop len maxp zlp N (num_sgs u) sgs 0 a l bl = Some (ts, fa) \<and>
          (\<forall>t\<in>set ts. unat (trb_addr t) mod 65536 + unat (trb_buff_len t) \<le> 65536) \<and>
          sum_list (map (\<lambda>t. unat (trb_buff_len t)) ts) = unat len - unat (0 :: u32) \<and>
          (\<forall>i<length ts. td_remainder (ts ! i) =
             (if unat (0 :: u32) + queued ts (Suc i) = unat len then 0
              else push_bit 17 (of_nat (min 31
                     (packets_from (unat len) (unat maxp) (unat (0 :: u32) + queued ts i)))))) \<and>
          (unat len - unat (0 :: u32) = unat l + sg_bytes sgs \<and> 0 < unat l \<and>
             (\<forall>(a, l)\<in>set sgs. 0 < unat l) \<longrightarrow>
             (\<forall>i. Suc i < length ts \<longrightarrow> unat (0 :: u32) + queued ts (Suc i) < unat len))"
  proof (rule bulk_sg_loop_nat [OF L M0' M uN cb _ l ls' ns ubl])
    show "unat (0 :: u32) \<le> unat len" by simp
    show "unat len - unat (0 :: u32) \<le> unat l + sg_bytes sgs"
      using en by simp
    show "unat (0 :: u32) + unat l \<le> unat len \<longrightarrow>
            c = chunks (unat a) (unat l) +
                (if unat (0 :: u32) + unat l = unat len then 0
                 else sg_count sgs (unat len - (unat (0 :: u32) + unat l)))"
      by (auto simp add: c_def)
    show "unat len < unat (0 :: u32) + unat l \<longrightarrow>
            1 \<le> c \<and> (unat (0 :: u32) < unat len \<longrightarrow> chunks (unat a) (unat len - unat (0 :: u32)) \<le> c)"
      using chunks_pos [of "unat a" "unat l"] chunks_mono [of "unat len" "unat l" "unat a"]
      by (auto simp add: c_def)
  qed
  then obtain ts fa where r: "bulk_sg_loop len maxp zlp N (num_sgs u) sgs 0 a l bl = Some (ts, fa)"
    and rg: "\<forall>t\<in>set ts. unat (trb_addr t) mod 65536 + unat (trb_buff_len t) \<le> 65536"
    and sm0: "sum_list (map (\<lambda>t. unat (trb_buff_len t)) ts) = unat len - unat (0 :: u32)"
    and rm0: "\<forall>i<length ts. td_remainder (ts ! i) =
             (if unat (0 :: u32) + queued ts (Suc i) = unat len then 0
              else push_bit 17 (of_nat (min 31
                     (packets_from (unat len) (unat maxp) (unat (0 :: u32) + queued ts i)))))"
    and nf0: "unat len - unat (0 :: u32) = unat l + sg_bytes sgs \<and> 0 < unat l \<and>
             (\<forall>(a, l)\<in>set sgs. 0 < unat l) \<longrightarrow>
             (\<forall>i. Suc i < length ts \<longrightarrow> unat (0 :: u32) + queued ts (Suc i) < unat len)"
    by blast
  have sm: "sum_list (map (\<lambda>t. unat (trb_buff_len t)) ts) = unat len"
    using sm0 by simp
  have rm: "\<forall>i<length ts. td_remainder (ts ! i) =
             (if queued ts (Suc i) = unat len then 0
              else push_bit 17 (of_nat (min 31
                     (packets_from (unat len) (unat maxp) (queued ts i)))))"
    using rm0 by simp
  have nf: "unat len = unat l + sg_bytes sgs \<and> 0 < unat l \<and> (\<forall>(a, l)\<in>set sgs. 0 < unat l) \<longrightarrow>
             (\<forall>i. Suc i < length ts \<longrightarrow> queued ts (Suc i) < unat len)"
    using nf0 by simp
  define z where "z = (if zlp then [\<lparr>trb_addr = fa, trb_buff_len = 0, td_remainder = 0,
                                       trb_chain = False, trb_idt = False\<rparr>] else [])"
  have e: "queue_bulk_sg_tx_trbs h u = Some (N, ts @ z)"
    using M0' r
    by (simp add: queue_bulk_sg_tx_trbs_def cnt mp sg Let_def len_def [symmetric]
        zlp_def [symmetric] bl_def [unfolded Let_def, symmetric] z_def)
  have c1: "\<forall>t\<in>set (ts @ z). unat (trb_addr t) mod 65536 + unat (trb_buff_len t) \<le> 65536"
    using rg by (auto simp add: z_def intro: less_imp_le)
  have c2: "sum_list (map (\<lambda>t. unat (trb_buff_len t)) (ts @ z)) = unat len"
    using sm by (simp add: z_def)
  have c3: "transfer_flags u AND URB_ZERO_PACKET h = 0 \<or> len mod bulk_max_packet u \<noteq> 0 \<longrightarrow>
             (\<forall>i<length (ts @ z). td_remainder ((ts @ z) ! i) =
                (if queued (ts @ z) (Suc i) = unat len then 0
                 else push_bit 17 (of_nat (min 31
                        (packets_from (unat len) (unat (bulk_max_packet u)) (queued (ts @ z) i)))))) \<and>
             (sg_bytes (sg u) = unat len \<and> (\<forall>(a, l)\<in>set (sg u). 0 < unat l) \<longrightarrow>
                (\<forall>i. Suc i < length (ts @ z) \<longrightarrow> queued (ts @ z) (Suc i) < unat len))"
  proof
    assume "transfer_flags u AND URB_ZERO_PACKET h = 0 \<or> len mod bulk_max_packet u \<noteq> 0"
    then have "z = []"
      by (auto simp add: z_def zlp_def maxp_def)
    then show "(\<forall>i<length (ts @ z). td_remainder ((ts @ z) ! i) =
                (if queued (ts @ z) (Suc i) = unat len then 0
                 else push_bit 17 (of_nat (min 31
                        (packets_from (unat len) (unat (bulk_max_packet u)) (queued (ts @ z) i)))))) \<and>
             (sg_bytes (sg u) = unat len \<and> (\<forall>(a, l)\<in>set (sg u). 0 < unat l) \<longrightarrow>
                (\<forall>i. Suc i < length (ts @ z) \<longrightarrow> queued (ts @ z) (Suc i) < unat len))"
      using rm nf by (auto simp add: sg sg_bytes_simps maxp_def)
  qed
  show ?thesis
  proof (intro exI conjI)
    show "queue_bulk_sg_tx_trbs h u = Some (N, ts @ z)" by (rule e)
  qed (rule c1 c2 c3)+
qed

lemma ex_sg_split:
  "xhci_queue_bulk_tx_trbs xhci_h_linux False ex_sg_urb =
     Some (3, [\<lparr>trb_addr = 0xFFF0, trb_buff_len = 16, td_remainder = push_bit 17 1,
                 trb_chain = True, trb_idt = False\<rparr>,
               \<lparr>trb_addr = 0x10000, trb_buff_len = 16, td_remainder = push_bit 17 1,
                 trb_chain = True, trb_idt = False\<rparr>,
               \<lparr>trb_addr = 0x20000, trb_buff_len = 256, td_remainder = 0,
                 trb_chain = False, trb_idt = False\<rparr>])"
  by (simp add: xhci_queue_bulk_tx_trbs_def queue_bulk_sg_tx_trbs_def count_sg_trbs_needed_def
      sg_max_packet_def ex_sg_urb_def ex_bulk_urb_def ex_urb_def xhci_h_linux_def
      bytes_to_boundary_def TRB_MAX_BUFF_SIZE_def TRB_MAX_BUFF_SHIFT_def
      count_chunks_loop.simps bulk_sg_loop.simps xhci_td_remainder_def Let_def
      word_less_nat_alt word_sless_alt)


lemma ex_bulk_split:
  "xhci_queue_bulk_tx_trbs xhci_h_linux False (ex_bulk_urb 0xFFFC00 0x20000 0) =
     Some (3, [\<lparr>trb_addr = 0xFFFC00, trb_buff_len = 1024, td_remainder = push_bit 17 31,
                 trb_chain = True, trb_idt = False\<rparr>,
               \<lparr>trb_addr = 0x1000000, trb_buff_len = 65536, td_remainder = push_bit 17 31,
                 trb_chain = True, trb_idt = False\<rparr>,
               \<lparr>trb_addr = 0x1010000, trb_buff_len = 64512, td_remainder = 0,
                 trb_chain = False, trb_idt = False\<rparr>])"
  by (simp add: xhci_queue_bulk_tx_trbs_def ex_bulk_urb_def ex_urb_def xhci_h_linux_def
      bytes_to_boundary_def TRB_MAX_BUFF_SIZE_def TRB_MAX_BUFF_SHIFT_def bulk_max_packet_def
      count_chunks_loop.simps bulk_tx_loop.simps xhci_td_remainder_def Let_def
      word_less_nat_alt word_sless_alt)

lemma ex_bulk_packets:
  "xhci_queue_bulk_tx_trbs xhci_h_linux False (ex_bulk_urb 0xFC00 2048 0) =
     Some (2, [\<lparr>trb_addr = 0xFC00, trb_buff_len = 1024, td_remainder = push_bit 17 2,
                 trb_chain = True, trb_idt = False\<rparr>,
               \<lparr>trb_addr = 0x10000, trb_buff_len = 1024, td_remainder = 0,
                 trb_chain = False, trb_idt = False\<rparr>])"
  by (simp add: xhci_queue_bulk_tx_trbs_def ex_bulk_urb_def ex_urb_def xhci_h_linux_def
      bytes_to_boundary_def TRB_MAX_BUFF_SIZE_def TRB_MAX_BUFF_SHIFT_def bulk_max_packet_def
      count_chunks_loop.simps bulk_tx_loop.simps xhci_td_remainder_def Let_def
      word_less_nat_alt word_sless_alt)

text \<open>
  With \<^verbatim>\<open>URB_ZERO_PACKET\<close> and one full packet the data TRB is followed by a TRB of length
  0; \<^verbatim>\<open>xhci_td_remainder\<close> gives 0 for both (its comment: \<^verbatim>\<open>FIXME: need to workaround if there
  is ZLP in this TD\<close>).
\<close>

lemma ex_bulk_zlp:
  "xhci_queue_bulk_tx_trbs xhci_h_linux False (ex_bulk_urb 0x10000 1024 0x40) =
     Some (2, [\<lparr>trb_addr = 0x10000, trb_buff_len = 1024, td_remainder = 0,
                 trb_chain = True, trb_idt = False\<rparr>,
               \<lparr>trb_addr = 0x10400, trb_buff_len = 0, td_remainder = 0,
                 trb_chain = False, trb_idt = False\<rparr>])"
  by (simp add: xhci_queue_bulk_tx_trbs_def ex_bulk_urb_def ex_urb_def xhci_h_linux_def
      bytes_to_boundary_def TRB_MAX_BUFF_SIZE_def TRB_MAX_BUFF_SHIFT_def bulk_max_packet_def
      count_chunks_loop.simps bulk_tx_loop.simps xhci_td_remainder_def Let_def
      word_less_nat_alt word_sless_alt)

text \<open>
  A list entry of 192KB for a transfer of 16 bytes: \<^verbatim>\<open>count_sg_trbs_needed\<close> counts the TRBs
  of the whole entry, the loop of \<^verbatim>\<open>queue_bulk_sg_tx\<close> runs until that count is used up, and
  two TRBs of length 0 follow the TRB that carries the data.
\<close>

lemma ex_sg_overcount:
  "xhci_queue_bulk_tx_trbs xhci_h_linux False
     ((ex_bulk_urb 0 0x10 0)\<lparr>num_sgs := 1, sg := [(0x20000, 0x30000)]\<rparr>) =
     Some (3, [\<lparr>trb_addr = 0x20000, trb_buff_len = 16, td_remainder = 0,
                 trb_chain = True, trb_idt = False\<rparr>,
               \<lparr>trb_addr = 0x20010, trb_buff_len = 0, td_remainder = 0,
                 trb_chain = True, trb_idt = False\<rparr>,
               \<lparr>trb_addr = 0x20010, trb_buff_len = 0, td_remainder = 0,
                 trb_chain = False, trb_idt = False\<rparr>])"
  by (simp add: xhci_queue_bulk_tx_trbs_def queue_bulk_sg_tx_trbs_def count_sg_trbs_needed_def
      sg_max_packet_def ex_bulk_urb_def ex_urb_def xhci_h_linux_def
      bytes_to_boundary_def TRB_MAX_BUFF_SIZE_def TRB_MAX_BUFF_SHIFT_def
      count_chunks_loop.simps bulk_sg_loop.simps xhci_td_remainder_def Let_def
      word_less_nat_alt word_sless_alt)


text \<open>
  Claim C5, as amended. Take a bulk URB as for C4 for which no zero-length packet is
  queued (\<^verbatim>\<open>URB_ZERO_PACKET\<close> is clear, or the length is not a multiple of the maximum
  packet size), with one buffer or with a scatter-gather list whose entries are not empty
  and hold exactly the transfer length. Then every TRB of the TD but the last carries, at
  bit 17, the number of packets of the transfer that are not yet complete when the TRB
  starts (the packets of the whole transfer, rounded up, less the whole packets queued
  before this TRB; so the TRB's own packets are counted), at most 31. The last TRB
  carries 0, no other TRB does, and the value never increases along the TD.
\<close>

theorem bulk_td_remainder_field:
  fixes u :: urb and h :: xhci_h
  defines "len \<equiv> unat (transfer_buffer_length u)"
    and "maxp \<equiv> unat (bulk_max_packet u)"
  assumes L: "len < 2 ^ 31"
    and M0: "bulk_max_packet u \<noteq> 0"
    and nz: "transfer_flags u AND URB_ZERO_PACKET h = 0 \<or>
             transfer_buffer_length u mod bulk_max_packet u \<noteq> 0"
    and sg: "num_sgs u = 0 \<or>
             sg_list_ok u \<and> sg_bytes (sg u) = len \<and> (\<forall>(a, l)\<in>set (sg u). 0 < unat l)"
  shows "\<exists>n ts. xhci_queue_bulk_tx_trbs h g u = Some (n, ts) \<and> ts \<noteq> [] \<and>
      (\<forall>i. Suc i < length ts \<longrightarrow>
         td_remainder (ts ! i) = push_bit 17 (of_nat (min 31 (packets_from len maxp (queued ts i))))) \<and>
      td_remainder (last ts) = 0 \<and>
      (\<forall>i<length ts. td_remainder (ts ! i) = 0 \<longleftrightarrow> Suc i = length ts) \<and>
      (\<forall>i j. i \<le> j \<and> j < length ts \<longrightarrow> td_remainder (ts ! j) \<le> td_remainder (ts ! i))"
proof -
  have "\<exists>n ts. xhci_queue_bulk_tx_trbs h g u = Some (n, ts) \<and> ts \<noteq> [] \<and>
      queued ts (length ts) = len \<and>
      (\<forall>i<length ts. td_remainder (ts ! i) =
         (if queued ts (Suc i) = len then 0
          else push_bit 17 (of_nat (min 31 (packets_from len maxp (queued ts i)))))) \<and>
      (\<forall>i. Suc i < length ts \<longrightarrow> queued ts (Suc i) < len)"
  proof (cases "num_sgs u = 0")
    case True
    from xhci_queue_bulk_tx_trbs_nat [OF True L [unfolded len_def] M0, of h g] nz
    obtain n ts where r: "xhci_queue_bulk_tx_trbs h g u = Some (n, ts)"
      and tot: "queued ts (length ts) = len"
      and rm: "\<forall>i<length ts. td_remainder (ts ! i) =
         (if queued ts (Suc i) = len then 0
          else push_bit 17 (of_nat (min 31 (packets_from len maxp (queued ts i)))))"
      and nf: "\<forall>i. Suc i < length ts \<longrightarrow> queued ts (Suc i) < len"
      unfolding len_def maxp_def by blast
    have ne: "ts \<noteq> []"
    proof
      assume "ts = []"
      with r True M0 show False
        by (auto simp add: xhci_queue_bulk_tx_trbs_def Let_def bulk_tx_loop.simps
            split: option.splits if_splits)
    qed
    from r ne tot rm nf show ?thesis by blast
  next
    case False
    with sg have ok: "sg_list_ok u" and ex: "sg_bytes (sg u) = len"
      and pos: "\<forall>(a, l)\<in>set (sg u). 0 < unat l"
      by simp_all
    have eq: "xhci_queue_bulk_tx_trbs h g u = queue_bulk_sg_tx_trbs h u"
      using False by (simp add: xhci_queue_bulk_tx_trbs_def)
    from queue_bulk_sg_tx_trbs_nat [OF L [unfolded len_def] M0 ok, of h] nz ex pos
    obtain n ts where r: "queue_bulk_sg_tx_trbs h u = Some (n, ts)"
      and sm: "sum_list (map (\<lambda>t. unat (trb_buff_len t)) ts) = len"
      and rm: "\<forall>i<length ts. td_remainder (ts ! i) =
         (if queued ts (Suc i) = len then 0
          else push_bit 17 (of_nat (min 31 (packets_from len maxp (queued ts i)))))"
      and nf: "\<forall>i. Suc i < length ts \<longrightarrow> queued ts (Suc i) < len"
      unfolding len_def maxp_def by blast
    have tot: "queued ts (length ts) = len"
      using sm by (simp add: queued_length)
    have "0 < len"
    proof -
      from ok obtain a l sgs where c: "sg u = (a, l) # sgs"
        by (cases "sg u") (auto simp add: sg_list_ok_def)
      with pos have "0 < unat l" by simp
      then show ?thesis
        using ex by (simp add: c sg_bytes_simps)
    qed
    with tot have ne: "ts \<noteq> []"
      by (auto simp add: queued_simps)
    from r ne tot rm nf show ?thesis
      unfolding eq by blast
  qed
  then obtain n ts where r: "xhci_queue_bulk_tx_trbs h g u = Some (n, ts)"
    and ne: "ts \<noteq> []"
    and tot: "queued ts (length ts) = len"
    and rm: "\<forall>i<length ts. td_remainder (ts ! i) =
         (if queued ts (Suc i) = len then 0
          else push_bit 17 (of_nat (min 31 (packets_from len maxp (queued ts i)))))"
    and nf: "\<forall>i. Suc i < length ts \<longrightarrow> queued ts (Suc i) < len"
    by blast
  have mpos: "0 < maxp"
    using M0 by (simp add: maxp_def unat_gt_0)
  let ?W = "\<lambda>q. push_bit 17 (of_nat (min 31 (packets_from len maxp q))) :: u32"
  have uW: "unat (?W q) = min 31 (packets_from len maxp q) * 131072" for q
    by (rule unat_td_size) simp
  have Wpos: "?W q \<noteq> 0" if "q < len" for q
  proof -
    have "0 < min 31 (packets_from len maxp q)"
      using packets_from_pos [OF that mpos] by simp
    then have "0 < unat (?W q)"
      by (simp add: uW)
    then show ?thesis
      by (simp add: unat_gt_0)
  qed
  have Wmono: "?W q' \<le> ?W q" if "q \<le> q'" for q q'
    using packets_from_antimono [OF that, of len maxp]
    by (simp add: word_le_nat_alt uW min_le_iff_disj)
  have nonfinal: "td_remainder (ts ! i) = ?W (queued ts i)" if i: "Suc i < length ts" for i
  proof -
    from nf i have "queued ts (Suc i) < len" by simp
    with rm i show ?thesis by simp
  qed
  have final: "td_remainder (ts ! i) = 0" if i: "Suc i = length ts" for i
  proof -
    have "queued ts (Suc i) = len"
      using tot i by simp
    with rm i show ?thesis by simp
  qed
  have lst: "td_remainder (last ts) = 0"
  proof -
    have "last ts = ts ! (length ts - 1)"
      using ne by (rule last_conv_nth)
    with final [of "length ts - 1"] ne show ?thesis by simp
  qed
  have zero: "td_remainder (ts ! i) = 0 \<longleftrightarrow> Suc i = length ts" if i: "i < length ts" for i
  proof (cases "Suc i = length ts")
    case True
    with final show ?thesis by simp
  next
    case False
    with i have si: "Suc i < length ts" by simp
    with nf have "queued ts (Suc i) < len" by simp
    moreover have "queued ts i \<le> queued ts (Suc i)"
      by (rule queued_mono) simp
    ultimately have "queued ts i < len" by simp
    from Wpos [OF this] nonfinal [OF si] False show ?thesis by simp
  qed
  have mono: "td_remainder (ts ! j) \<le> td_remainder (ts ! i)" if ij: "i \<le> j" "j < length ts" for i j
  proof (cases "Suc j = length ts")
    case True
    with final show ?thesis by simp
  next
    case False
    with ij have sj: "Suc j < length ts" by simp
    with ij have si: "Suc i < length ts" by simp
    have "queued ts i \<le> queued ts j"
      using ij by (intro queued_mono)
    from Wmono [OF this] nonfinal [OF si] nonfinal [OF sj] show ?thesis by simp
  qed
  from r ne nonfinal lst zero mono show ?thesis
    by blast
qed

text \<open>
  The theorem at a buffer of 128KB that starts 1KB before a 64KB boundary (three TRBs,
  129 packets: the first two TRBs carry 31) and at a list of two entries, the first of
  which crosses a 64KB boundary (three TRBs, one packet).
\<close>

theorem bulk_td_remainder_field_witness:
  "(\<exists>n ts. xhci_queue_bulk_tx_trbs xhci_h_linux False (ex_bulk_urb 0xFFFC00 0x20000 0) = Some (n, ts) \<and>
      ts \<noteq> [] \<and> td_remainder (last ts) = 0 \<and> td_remainder (ts ! 0) = push_bit 17 31 \<and>
      td_remainder (ts ! 1) \<le> td_remainder (ts ! 0)) \<and>
   (\<exists>n ts. xhci_queue_bulk_tx_trbs xhci_h_linux False ex_sg_urb = Some (n, ts) \<and>
      ts \<noteq> [] \<and> td_remainder (last ts) = 0 \<and> td_remainder (ts ! 0) = push_bit 17 1 \<and>
      td_remainder (ts ! 1) = push_bit 17 1)"
proof -
  have L: "unat (transfer_buffer_length (ex_bulk_urb 0xFFFC00 0x20000 0)) < 2 ^ 31"
    and M0: "bulk_max_packet (ex_bulk_urb 0xFFFC00 0x20000 0) \<noteq> 0"
    and nz: "transfer_flags (ex_bulk_urb 0xFFFC00 0x20000 0) AND URB_ZERO_PACKET xhci_h_linux = 0 \<or>
       transfer_buffer_length (ex_bulk_urb 0xFFFC00 0x20000 0) mod
         bulk_max_packet (ex_bulk_urb 0xFFFC00 0x20000 0) \<noteq> 0"
    and sg: "num_sgs (ex_bulk_urb 0xFFFC00 0x20000 0) = 0 \<or>
       sg_list_ok (ex_bulk_urb 0xFFFC00 0x20000 0) \<and>
       sg_bytes (sg (ex_bulk_urb 0xFFFC00 0x20000 0)) =
         unat (transfer_buffer_length (ex_bulk_urb 0xFFFC00 0x20000 0)) \<and>
       (\<forall>(a, l)\<in>set (sg (ex_bulk_urb 0xFFFC00 0x20000 0)). 0 < unat l)"
    by (simp_all add: ex_bulk_urb_def ex_urb_def bulk_max_packet_def)
  from bulk_td_remainder_field [OF L M0 nz sg, of False]
  obtain n ts where
    "xhci_queue_bulk_tx_trbs xhci_h_linux False (ex_bulk_urb 0xFFFC00 0x20000 0) = Some (n, ts)"
    "ts \<noteq> []" "td_remainder (last ts) = 0"
    by blast
  then have one: "\<exists>n ts. xhci_queue_bulk_tx_trbs xhci_h_linux False (ex_bulk_urb 0xFFFC00 0x20000 0) = Some (n, ts) \<and>
      ts \<noteq> [] \<and> td_remainder (last ts) = 0 \<and> td_remainder (ts ! 0) = push_bit 17 31 \<and>
      td_remainder (ts ! 1) \<le> td_remainder (ts ! 0)"
    using ex_bulk_split by auto
  have L': "unat (transfer_buffer_length ex_sg_urb) < 2 ^ 31"
    and M0': "bulk_max_packet ex_sg_urb \<noteq> 0"
    and nz': "transfer_flags ex_sg_urb AND URB_ZERO_PACKET xhci_h_linux = 0 \<or>
       transfer_buffer_length ex_sg_urb mod bulk_max_packet ex_sg_urb \<noteq> 0"
    and sg': "num_sgs ex_sg_urb = 0 \<or>
       sg_list_ok ex_sg_urb \<and> sg_bytes (sg ex_sg_urb) = unat (transfer_buffer_length ex_sg_urb) \<and>
       (\<forall>(a, l)\<in>set (sg ex_sg_urb). 0 < unat l)"
    by (simp_all add: ex_sg_urb_def ex_bulk_urb_def ex_urb_def bulk_max_packet_def
        sg_list_ok_def sg_bytes_def)
  from bulk_td_remainder_field [OF L' M0' nz' sg', of False]
  obtain n' ts' where
    "xhci_queue_bulk_tx_trbs xhci_h_linux False ex_sg_urb = Some (n', ts')"
    "ts' \<noteq> []" "td_remainder (last ts') = 0"
    by blast
  then have two: "\<exists>n ts. xhci_queue_bulk_tx_trbs xhci_h_linux False ex_sg_urb = Some (n, ts) \<and>
      ts \<noteq> [] \<and> td_remainder (last ts) = 0 \<and> td_remainder (ts ! 0) = push_bit 17 1 \<and>
      td_remainder (ts ! 1) = push_bit 17 1"
    using ex_sg_split by auto
  from one two show ?thesis ..
qed

text \<open>
  C5 as stated fails: two packets of 1024 bytes whose buffer crosses a 64KB boundary after
  the first. The first TRB carries 2, the packets from its own start on, although one
  packet remains after it.
\<close>

theorem bulk_td_remainder_field_counterexample:
  "xhci_queue_bulk_tx_trbs xhci_h_linux False (ex_bulk_urb 0xFC00 2048 0) =
     Some (2, [\<lparr>trb_addr = 0xFC00, trb_buff_len = 1024, td_remainder = push_bit 17 2,
                 trb_chain = True, trb_idt = False\<rparr>,
               \<lparr>trb_addr = 0x10000, trb_buff_len = 1024, td_remainder = 0,
                 trb_chain = False, trb_idt = False\<rparr>]) \<and>
   bulk_max_packet (ex_bulk_urb 0xFC00 2048 0) = 1024 \<and>
   (unat (transfer_buffer_length (ex_bulk_urb 0xFC00 2048 0)) - 1024) div 1024 = 1 \<and>
   (push_bit 17 2 :: u32) \<noteq> push_bit 17 1"
  using ex_bulk_packets
  by (simp add: bulk_max_packet_def ex_bulk_urb_def ex_urb_def)

subsection \<open>The room check\<close>

lemma ring_layoutD:
  assumes "ring_layout h x ss"
  shows "0 < length ss" and "distinct ss" and "2 \<le> TRBS_PER_SEGMENT h"
    and "1 \<le> TRBS_PER_SEGMENT h - 1"
    and "i < length ss \<Longrightarrow> seg_next (segs x (ss ! i)) = ss ! (Suc i mod length ss)"
    and "i < length ss \<Longrightarrow> j < TRBS_PER_SEGMENT h \<Longrightarrow>
           is_link h (mem x (trbs (segs x (ss ! i)) + j)) \<longleftrightarrow> j = TRBS_PER_SEGMENT h - 1"
    and "i < length ss \<Longrightarrow> i' < length ss \<Longrightarrow> j < TRBS_PER_SEGMENT h \<Longrightarrow> j' < TRBS_PER_SEGMENT h \<Longrightarrow>
           trbs (segs x (ss ! i)) + j = trbs (segs x (ss ! i')) + j' \<Longrightarrow> i = i' \<and> j = j'"
proof -
  from assms show "0 < length ss" and "distinct ss" and t: "2 \<le> TRBS_PER_SEGMENT h"
    by (simp_all add: ring_layout_def)
  from t show "1 \<le> TRBS_PER_SEGMENT h - 1"
    by linarith
  from assms show "i < length ss \<Longrightarrow> seg_next (segs x (ss ! i)) = ss ! (Suc i mod length ss)"
    by (simp add: ring_layout_def)
  from assms show "i < length ss \<Longrightarrow> j < TRBS_PER_SEGMENT h \<Longrightarrow>
           is_link h (mem x (trbs (segs x (ss ! i)) + j)) \<longleftrightarrow> j = TRBS_PER_SEGMENT h - 1"
    by (simp add: ring_layout_def)
  from assms show "i < length ss \<Longrightarrow> i' < length ss \<Longrightarrow> j < TRBS_PER_SEGMENT h \<Longrightarrow> j' < TRBS_PER_SEGMENT h \<Longrightarrow>
           trbs (segs x (ss ! i)) + j = trbs (segs x (ss ! i')) + j' \<Longrightarrow> i = i' \<and> j = j'"
    unfolding ring_layout_def by blast
qed

lemma last_trb_layout:
  assumes wf: "ring_layout h x ss" and ne: "ring \<noteq> event_ring x"
    and i: "i < length ss" and j: "j \<le> TRBS_PER_SEGMENT h - 1"
  shows "last_trb h x ring s (trbs (segs x (ss ! i)) + j) \<longleftrightarrow> j = TRBS_PER_SEGMENT h - 1"
proof -
  from ring_layoutD(3) [OF wf] j have "j < TRBS_PER_SEGMENT h" by simp
  from ring_layoutD(6) [OF wf i this] show ?thesis
    using ne by (simp add: last_trb_def is_link_def)
qed

lemma room_skip_links_stop:
  "\<not> last_trb h x ring s e \<Longrightarrow> room_skip_links h x ring s e = Some (s, e)"
  by (subst room_skip_links.simps) simp

lemma room_skip_links_step:
  "last_trb h x ring s e \<Longrightarrow>
     room_skip_links h x ring s e =
       room_skip_links h x ring (seg_next (segs x s)) (trbs (segs x (seg_next (segs x s))))"
  by (subst room_skip_links.simps) simp

lemma room_skip_links_layout:
  assumes wf: "ring_layout h x ss" and ne: "ring \<noteq> event_ring x"
    and i: "i < length ss" and j: "j \<le> T"
    and T: "T = TRBS_PER_SEGMENT h - 1" and K: "K = length ss * T"
  shows "room_skip_links h x ring (ss ! i) (trbs (segs x (ss ! i)) + j) =
           Some (slot x ss T ((i * T + j) mod K))"
proof -
  have T1: "1 \<le> T" and k: "0 < length ss"
    and nx: "seg_next (segs x (ss ! i)) = ss ! (Suc i mod length ss)"
    using ring_layoutD(1,4) [OF wf] ring_layoutD(5) [OF wf i] by (simp_all add: T)
  show ?thesis
  proof (cases "j = T")
    case False
    with j have jl: "j < T" by simp
    have "i * T + j < Suc i * T"
      using jl by simp
    also have "\<dots> \<le> K"
      unfolding K using i by (intro mult_le_mono1) simp
    finally have lt: "i * T + j < K" .
    have nl: "\<not> last_trb h x ring (ss ! i) (trbs (segs x (ss ! i)) + j)"
      using last_trb_layout [OF wf ne i, of j] jl by (simp add: T)
    have "slot x ss T (i * T + j) = (ss ! i, trbs (segs x (ss ! i)) + j)"
      using jl by (simp add: slot_def)
    with lt show ?thesis
      by (simp add: room_skip_links_stop [OF nl])
  next
    case True
    have l: "last_trb h x ring (ss ! i) (trbs (segs x (ss ! i)) + j)"
      using last_trb_layout [OF wf ne i, of j] True by (simp add: T)
    have i': "Suc i mod length ss < length ss"
      using k by simp
    have nl: "\<not> last_trb h x ring (ss ! (Suc i mod length ss))
                 (trbs (segs x (ss ! (Suc i mod length ss))) + 0)"
      using last_trb_layout [OF wf ne i', of 0] T1 by (simp add: T)
    have "(i * T + j) mod K = (Suc i * T) mod (length ss * T)"
      by (simp add: True K add.commute)
    also have "\<dots> = (Suc i mod length ss) * T"
      by (rule mod_mult_mult2 [symmetric, THEN sym]) 
    finally have m: "(i * T + j) mod K = (Suc i mod length ss) * T" .
    have "slot x ss T ((Suc i mod length ss) * T) =
            (ss ! (Suc i mod length ss), trbs (segs x (ss ! (Suc i mod length ss))))"
      using T1 by (simp add: slot_def)
    then show ?thesis
      using nl by (simp add: room_skip_links_step [OF l] nx m room_skip_links_stop)
  qed
qed

lemma slot_index:
  assumes k: "0 < T" and p: "p < length ss * T"
  shows "p div T < length ss" and "p mod T < T"
  using assms by (simp_all add: less_mult_imp_div_less)

lemma room_step_layout:
  assumes wf: "ring_layout h x ss" and ne: "ring \<noteq> event_ring x"
    and T: "T = TRBS_PER_SEGMENT h - 1" and K: "K = length ss * T"
    and p: "p < K" and sl: "slot x ss T p = (s, e)"
  shows "room_skip_links h x ring s (e + 1) = Some (slot x ss T ((p + 1) mod K))"
proof -
  have T1: "0 < T"
    using ring_layoutD(4) [OF wf] by (simp add: T)
  have i: "p div T < length ss" and j: "p mod T + 1 \<le> T"
    using slot_index [OF T1 p [unfolded K]] by simp_all
  from sl have s: "s = ss ! (p div T)" and e: "e = trbs (segs x (ss ! (p div T))) + p mod T"
    by (auto simp add: slot_def)
  have "(p div T) * T + (p mod T + 1) = p + 1"
    by simp
  with room_skip_links_layout [OF wf ne i j T K] show ?thesis
    unfolding s e by (simp only: add.assoc)
qed

lemma slot_inj:
  assumes wf: "ring_layout h x ss"
    and T: "T = TRBS_PER_SEGMENT h - 1" and K: "K = length ss * T"
    and p: "p < K" and q: "q < K"
    and eq: "snd (slot x ss T p) = snd (slot x ss T q)"
  shows "p = q"
proof -
  have T1: "0 < T"
    using ring_layoutD(4) [OF wf] by (simp add: T)
  have Tl: "T < TRBS_PER_SEGMENT h"
    using ring_layoutD(3) [OF wf] by (simp add: T)
  have ip: "p div T < length ss" and iq: "q div T < length ss"
    using slot_index(1) [OF T1 p [unfolded K]] slot_index(1) [OF T1 q [unfolded K]] by simp_all
  have jp: "p mod T < TRBS_PER_SEGMENT h"
    using slot_index(2) [OF T1 p [unfolded K]] Tl by (rule less_trans)
  have jq: "q mod T < TRBS_PER_SEGMENT h"
    using slot_index(2) [OF T1 q [unfolded K]] Tl by (rule less_trans)
  from ring_layoutD(7) [OF wf ip iq jp jq] eq
  have "p div T = q div T \<and> p mod T = q mod T"
    by (simp add: slot_def)
  then show ?thesis
    by (metis div_mult_mod_eq)
qed

lemma slots_between_0:
  assumes "p < K" and "q < K"
  shows "slots_between K p q = 0 \<longleftrightarrow> p = q"
  using assms by (auto simp add: slots_between_def)

lemma slots_between_step:
  assumes "p < K" and "q < K" and "p \<noteq> q"
  shows "slots_between K ((p + 1) mod K) q = slots_between K p q - 1"
proof (cases "p + 1 = K")
  case True
  then show ?thesis
    using assms by (simp add: slots_between_def)
next
  case False
  with assms(1) have "p + 1 < K" by simp
  then show ?thesis
    using assms by (auto simp add: slots_between_def)
qed

lemma room_walk_fails:
  assumes wf: "ring_layout h x ss" and ne: "ring \<noteq> event_ring x"
    and T: "T = TRBS_PER_SEGMENT h - 1" and K: "K = length ss * T"
    and pd: "pd < K" and deq: "dequeue (rings x ring) = snd (slot x ss T pd)"
  shows "p < K \<Longrightarrow> slots_between K p pd = d \<Longrightarrow> unat i + d \<le> unat n \<Longrightarrow>
         room_walk h x ring n i (fst (slot x ss T p)) (snd (slot x ss T p)) = Some 0"
proof (induction d arbitrary: p i)
  case 0
  then have "p = pd"
    using slots_between_0 [OF "0.prems"(1) pd] by simp
  moreover have "i \<le> n"
    using "0.prems"(3) by (simp add: word_le_nat_alt)
  ultimately show ?case
    by (subst room_walk.simps) (simp add: deq)
next
  case (Suc d)
  have np: "p \<noteq> pd"
    using slots_between_0 [OF Suc.prems(1) pd] Suc.prems(2) by auto
  then have nd: "snd (slot x ss T p) \<noteq> dequeue (rings x ring)"
    using slot_inj [OF wf T K Suc.prems(1) pd] by (auto simp add: deq)
  have le: "i \<le> n"
    using Suc.prems(3) by (simp add: word_le_nat_alt)
  have "unat i < unat n"
    using Suc.prems(3) by simp
  then have "unat i + 1 < 2 ^ 32"
    using unsigned_less [of n, where 'a = nat] by simp
  then have i1: "unat (i + 1) = unat i + 1"
    by (simp add: unat_word_ariths)
  have st: "room_skip_links h x ring (fst (slot x ss T p)) (Suc (snd (slot x ss T p))) =
              Some (slot x ss T ((p + 1) mod K))"
    using room_step_layout [OF wf ne T K Suc.prems(1), of "fst (slot x ss T p)" "snd (slot x ss T p)"]
    by simp
  have K0: "0 < K"
    using pd by simp
  have "room_walk h x ring n (i + 1) (fst (slot x ss T ((p + 1) mod K)))
           (snd (slot x ss T ((p + 1) mod K))) = Some 0"
  proof (rule Suc.IH)
    show "(p + 1) mod K < K"
      using K0 by simp
    show "slots_between K ((p + 1) mod K) pd = d"
      using slots_between_step [OF Suc.prems(1) pd np] Suc.prems(2) by simp
    show "unat (i + 1) + d \<le> unat n"
      using Suc.prems(3) by (simp add: i1)
  qed
  then show ?case
    using le nd by (subst room_walk.simps) (simp add: st case_prod_beta)
qed

lemma room_walk_succeeds:
  assumes wf: "ring_layout h x ss" and ne: "ring \<noteq> event_ring x"
    and T: "T = TRBS_PER_SEGMENT h - 1" and K: "K = length ss * T"
    and pd: "pd < K" and deq: "dequeue (rings x ring) = snd (slot x ss T pd)"
    and n: "unat n + 1 < 2 ^ 32"
  shows "p < K \<Longrightarrow> unat n + 1 - unat i = m \<Longrightarrow> unat i \<le> unat n + 1 \<Longrightarrow>
         unat n < unat i + slots_between K p pd \<Longrightarrow>
         room_walk h x ring n i (fst (slot x ss T p)) (snd (slot x ss T p)) = Some 1"
proof (induction m arbitrary: p i)
  case 0
  then have "\<not> i \<le> n"
    by (simp add: word_le_nat_alt)
  then show ?case
    by (subst room_walk.simps) simp
next
  case (Suc m)
  have le: "i \<le> n"
    using Suc.prems(2) by (simp add: word_le_nat_alt)
  have "slots_between K p pd \<noteq> 0"
    using Suc.prems(2,4) by simp
  then have np: "p \<noteq> pd"
    using slots_between_0 [OF Suc.prems(1) pd] by simp
  then have nd: "snd (slot x ss T p) \<noteq> dequeue (rings x ring)"
    using slot_inj [OF wf T K Suc.prems(1) pd] by (auto simp add: deq)
  have "unat i + 1 < 2 ^ 32"
    using n Suc.prems(2) by simp
  then have i1: "unat (i + 1) = unat i + 1"
    by (simp add: unat_word_ariths)
  have st: "room_skip_links h x ring (fst (slot x ss T p)) (Suc (snd (slot x ss T p))) =
              Some (slot x ss T ((p + 1) mod K))"
    using room_step_layout [OF wf ne T K Suc.prems(1), of "fst (slot x ss T p)" "snd (slot x ss T p)"]
    by simp
  have K0: "0 < K"
    using pd by simp
  have "room_walk h x ring n (i + 1) (fst (slot x ss T ((p + 1) mod K)))
           (snd (slot x ss T ((p + 1) mod K))) = Some 1"
  proof (rule Suc.IH)
    show "(p + 1) mod K < K"
      using K0 by simp
    show "unat n + 1 - unat (i + 1) = m"
      using Suc.prems(2) by (simp add: i1)
    show "unat (i + 1) \<le> unat n + 1"
      using Suc.prems(2) by (simp add: i1)
    show "unat n < unat (i + 1) + slots_between K ((p + 1) mod K) pd"
      using slots_between_step [OF Suc.prems(1) pd np] Suc.prems(4) \<open>slots_between K p pd \<noteq> 0\<close>
      by (simp add: i1)
  qed
  then show ?case
    using le nd by (subst room_walk.simps) (simp add: st case_prod_beta)
qed

lemma room_count_segs_layout:
  assumes wf: "ring_layout h x ss" and T: "T = TRBS_PER_SEGMENT h - 1" and ie: "ie < length ss"
  shows "1 \<le> m \<Longrightarrow> m \<le> length ss \<Longrightarrow> length ss - m = r \<Longrightarrow>
         room_count_segs h x (ss ! ie) (ss ! ((ie + m) mod length ss)) acc =
           Some (acc + of_nat (r * T))"
proof (induction r arbitrary: m acc)
  case 0
  then have "m = length ss" by simp
  then have "(ie + m) mod length ss = ie"
    using ie by simp
  then show ?case
    by (subst room_count_segs.simps) simp
next
  case (Suc r)
  let ?k = "length ss"
  let ?a = "(ie + m) mod ?k"
  have ml: "m < ?k"
    using Suc.prems(3) by simp
  have a: "?a < ?k"
    using ring_layoutD(1) [OF wf] by simp
  have "?a \<noteq> ie"
  proof (cases "ie + m < ?k")
    case True
    then show ?thesis using Suc.prems(1) by simp
  next
    case False
    then have "?a = ie + m - ?k"
      using ie ml by (simp add: le_mod_geq)
    then show ?thesis using ml False by simp
  qed
  then have neq: "ss ! ?a \<noteq> ss ! ie"
    using ring_layoutD(2) [OF wf] a ie by (simp add: nth_eq_iff_index_eq)
  have nx: "seg_next (segs x (ss ! ?a)) = ss ! ((ie + Suc m) mod ?k)"
    using ring_layoutD(5) [OF wf a] by (simp add: mod_Suc_eq)
  have w: "(of_nat (TRBS_PER_SEGMENT h) - 1 :: u32) = of_nat T"
    using ring_layoutD(3) [OF wf] by (simp add: T of_nat_diff)
  have "room_count_segs h x (ss ! ie) (ss ! ((ie + Suc m) mod ?k)) (acc + of_nat T) =
          Some (acc + of_nat T + of_nat (r * T))"
    by (rule Suc.IH) (use Suc.prems in simp_all)
  then show ?case
    using neq by (subst room_count_segs.simps) (simp add: nx w add.assoc)
qed

text \<open>
  Claim C3. On a transfer or command ring whose segments are laid out as \<open>ring_layout\<close>
  says, with the enqueue cursor on any TRB of a segment (a link TRB included: the check
  skips it) and the dequeue cursor on a usable TRB, \<^verbatim>\<open>room_on_ring\<close> returns 1 exactly
  when \<open>n + 1\<close> slots are free, the requested \<open>n\<close> and one spare, and 0 otherwise. It
  returns a verdict only: it works on copies of the cursors and writes nothing. When it
  returns 0, \<^verbatim>\<open>prepare_ring\<close> on a running, halted or stopped endpoint returns
  \<^verbatim>\<open>-ENOMEM\<close>, before any write to the ring. When it returns 1 and the enqueue cursor is
  not on a link TRB, \<^verbatim>\<open>prepare_ring\<close> returns 0 and leaves the whole state as it was.
\<close>

theorem room_check_spare_slot:
  assumes wf: "ring_layout h x ss" and ne: "ring \<noteq> event_ring x"
    and T: "T = TRBS_PER_SEGMENT h - 1" and K: "K = length ss * T" and Kb: "K < 2 ^ 32"
    and es: "enq_seg (rings x ring) = ss ! i" and i: "i < length ss"
    and en: "enqueue (rings x ring) = trbs (segs x (ss ! i)) + j" and j: "j \<le> T"
    and pe: "pe = (i * T + j) mod K"
    and dq: "dequeue (rings x ring) = snd (slot x ss T pd)" and pd: "pd < K"
  shows "room_on_ring h x ring n = Some (if unat n + 1 \<le> free_slots K pe pd then 1 else 0) \<and>
         (st \<in> {EP_STATE_RUNNING, EP_STATE_HALTED, EP_STATE_STOPPED} \<and>
          free_slots K pe pd < unat n + 1 \<longrightarrow>
            prepare_ring h ring st n x = Some (Inl ENOMEM)) \<and>
         (st \<in> {EP_STATE_RUNNING, EP_STATE_HALTED, EP_STATE_STOPPED} \<and>
          unat n + 1 \<le> free_slots K pe pd \<and> j < T \<longrightarrow>
            prepare_ring h ring st n x = Some (Inr x))"
proof -
  have T1: "0 < T"
    using ring_layoutD(4) [OF wf] by (simp add: T)
  have K0: "0 < K"
    using pd by simp
  have pel: "pe < K"
    using K0 by (simp add: pe)
  have sk: "room_skip_links h x ring (enq_seg (rings x ring)) (enqueue (rings x ring)) =
              Some (slot x ss T pe)"
    unfolding es en pe by (rule room_skip_links_layout [OF wf ne i j T K])
  have room: "room_on_ring h x ring n = Some (if unat n + 1 \<le> free_slots K pe pd then 1 else 0)"
  proof (cases "pe = pd")
    case True
    have ie: "pe div T < length ss"
      using slot_index(1) [OF T1 pel [unfolded K]] .
    have "room_count_segs h x (ss ! (pe div T)) (ss ! ((pe div T + 1) mod length ss))
            (of_nat T) = Some (of_nat T + of_nat ((length ss - 1) * T))"
      by (rule room_count_segs_layout [OF wf T ie]) (use ie in simp_all)
    moreover have "(of_nat T + of_nat ((length ss - 1) * T) :: u32) = of_nat K"
    proof -
      have "T + (length ss - 1) * T = K"
        using ring_layoutD(1) [OF wf] by (cases "length ss") (simp_all add: K)
      then show ?thesis
        by (metis of_nat_add)
    qed
    moreover have w: "(of_nat (TRBS_PER_SEGMENT h) - 1 :: u32) = of_nat T"
      using ring_layoutD(3) [OF wf] by (simp add: T of_nat_diff)
    moreover have nx: "seg_next (segs x (ss ! (pe div T))) = ss ! ((pe div T + 1) mod length ss)"
      using ring_layoutD(5) [OF wf ie] by simp
    ultimately have cnt: "room_count_segs h x (fst (slot x ss T pe))
         (seg_next (segs x (fst (slot x ss T pe)))) (of_nat (TRBS_PER_SEGMENT h) - 1) =
         Some (of_nat K)"
      by (simp add: slot_def)
    have uK: "unat (of_nat K - 1 :: u32) = K - 1"
    proof -
      have "(of_nat K - 1 :: u32) = of_nat (K - 1)"
        using K0 by (simp add: of_nat_diff)
      moreover have "K - 1 < 2 ^ 32"
        using Kb by simp
      ultimately show ?thesis
        by (simp add: unat_of_nat take_bit_nat_eq_self)
    qed
    have lt: "of_nat K - 1 < n \<longleftrightarrow> \<not> unat n + 1 \<le> K"
      using K0 by (auto simp add: word_less_nat_alt uK)
    have eq: "snd (slot x ss T pe) = dequeue (rings x ring)"
      using True dq by simp
    have fr: "free_slots K pe pd = K"
      using True by (simp add: free_slots_def)
    show ?thesis
      unfolding fr by (simp add: room_on_ring_def sk case_prod_beta eq cnt lt)
  next
    case False
    then have nd: "snd (slot x ss T pe) \<noteq> dequeue (rings x ring)"
      using slot_inj [OF wf T K pel pd] by (auto simp add: dq)
    have fr: "free_slots K pe pd = slots_between K pe pd"
      using False by (simp add: free_slots_def)
    have sbK: "slots_between K pe pd \<le> K"
      using pel pd by (auto simp add: slots_between_def)
    have walk: "room_on_ring h x ring n =
                  room_walk h x ring n 0 (fst (slot x ss T pe)) (snd (slot x ss T pe))"
      using nd by (simp add: room_on_ring_def sk case_prod_beta)
    show ?thesis
    proof (cases "slots_between K pe pd \<le> unat n")
      case True
      have "room_walk h x ring n 0 (fst (slot x ss T pe)) (snd (slot x ss T pe)) = Some 0"
        by (rule room_walk_fails [OF wf ne T K pd dq pel refl]) (use True in simp)
      with True show ?thesis
        by (simp add: walk fr)
    next
      case small: False
      then have nb: "unat n + 1 < 2 ^ 32"
        using sbK Kb by simp
      have "room_walk h x ring n 0 (fst (slot x ss T pe)) (snd (slot x ss T pe)) = Some 1"
        by (rule room_walk_succeeds [OF wf ne T K pd dq nb pel refl]) (use small in simp_all)
      with small show ?thesis
        by (simp add: walk fr)
    qed
  qed
  have nolink: "\<not> enqueue_is_link_trb h x ring" if "j < T"
  proof -
    from that have "j < TRBS_PER_SEGMENT h" and "j \<noteq> TRBS_PER_SEGMENT h - 1"
      by (simp_all add: T)
    with ring_layoutD(6) [OF wf i, of j] show ?thesis
      by (simp add: enqueue_is_link_trb_def is_link_def en)
  qed
  from room nolink show ?thesis
    by (auto simp add: prepare_ring_def)
qed

lemma ex_ring_layout: "ring_layout xhci_h_linux ex_state_a [1, 2]"
  unfolding ring_layout_def
  by (auto simp add: ex_defs less_Suc_eq)

theorem room_check_spare_slot_witness:
  "room_on_ring xhci_h_linux ex_state_a 1 62 = Some 1 \<and>
   room_on_ring xhci_h_linux ex_state_a 1 63 = Some 0 \<and>
   prepare_ring xhci_h_linux 1 EP_STATE_RUNNING 63 ex_state_a = Some (Inl ENOMEM) \<and>
   prepare_ring xhci_h_linux 1 EP_STATE_RUNNING 62 ex_state_a = Some (Inr ex_state_a)"
proof -
  have ne: "1 \<noteq> event_ring ex_state_a"
    and T: "63 = TRBS_PER_SEGMENT xhci_h_linux - 1"
    and K: "126 = length [1 :: nat, 2] * 63"
    and Kb: "(126 :: nat) < 2 ^ 32"
    and es: "enq_seg (rings ex_state_a 1) = [1, 2] ! 1"
    and i: "1 < length [1 :: nat, 2]"
    and en: "enqueue (rings ex_state_a 1) = trbs (segs ex_state_a ([1, 2] ! 1)) + 62"
    and j: "(62 :: nat) \<le> 63"
    and pe: "(125 :: nat) = (1 * 63 + 62) mod 126"
    and dq: "dequeue (rings ex_state_a 1) = snd (slot ex_state_a [1, 2] 63 62)"
    and pd: "(62 :: nat) < 126"
    by (simp_all add: ex_defs slot_def)
  note R = room_check_spare_slot [OF ex_ring_layout ne T K Kb es i en j pe dq pd]
  from R [of 62 EP_STATE_RUNNING] R [of 63 EP_STATE_RUNNING] show ?thesis
    by (simp add: free_slots_def slots_between_def)
qed

end
